theory Spec2Isabelle
  imports Main "HOL-Library.Word"
begin

section \<open>Variant records\<close>

text \<open>
  The struct \<open>Variant\<close> of \<open>bim_inner_join.cpp\<close>. The two \<open>unsigned int\<close> fields are
  32-bit words; \<open><\<close> on words is the unsigned comparison of the source.
\<close>

record Variant =
  chrom :: "32 word"
  name :: string
  position :: "32 word"
  a1 :: string
  a2 :: string

text \<open>\<open>Variant::operator==\<close>: equality of the locus only.\<close>

definition op_eq :: "Variant \<Rightarrow> Variant \<Rightarrow> bool" where
  "op_eq this that = (chrom this = chrom that \<and> position this = position that)"

text \<open>\<open>Variant::operator!=\<close>.\<close>

definition op_ne :: "Variant \<Rightarrow> Variant \<Rightarrow> bool" where
  "op_ne this that = (\<not> op_eq this that)"

text \<open>\<open>Variant::operator<\<close>.\<close>

definition op_lt :: "Variant \<Rightarrow> Variant \<Rightarrow> bool" where
  "op_lt this that =
     (if chrom this \<noteq> chrom that then chrom this < chrom that
      else position this < position that)"

text \<open>\<open>Variant::operator>\<close>.\<close>

definition op_gt :: "Variant \<Rightarrow> Variant \<Rightarrow> bool" where
  "op_gt this that =
     (if chrom this \<noteq> chrom that then chrom this > chrom that
      else position this > position that)"

text \<open>
  \<open>Variant::alleles_eq\<close>. The \<open>std::unordered_set<std::string>\<close> is a list without
  duplicates: \<open>List.insert\<close> adds an element only when it is absent, and \<open>size()\<close> is the
  length of the list.
\<close>

definition alleles_eq :: "Variant \<Rightarrow> Variant \<Rightarrow> bool" where
  "alleles_eq this that =
     (let locus_match = op_eq this that;
          alleles0 = ([] :: string list);
          alleles1 = (if a1 this \<noteq> ''0'' then List.insert (a1 this) alleles0 else alleles0);
          alleles2 = (if a2 this \<noteq> ''0'' then List.insert (a2 this) alleles1 else alleles1);
          alleles3 = (if a1 that \<noteq> ''0'' then List.insert (a1 that) alleles2 else alleles2);
          alleles4 = (if a2 that \<noteq> ''0'' then List.insert (a2 that) alleles3 else alleles3);
          alleles_match = (length alleles4 \<le> 2)
      in locus_match \<and> alleles_match)"

section \<open>Input streams and the line reader\<close>

text \<open>
  An open \<open>std::ifstream\<close>: the characters not yet extracted and the \<open>eofbit\<close>, the only
  state flag the program inspects (through \<open>eof()\<close>). \<open>std::getline\<close> raises \<open>failbit\<close>
  only together with \<open>eofbit\<close>, so a stream is \<open>good()\<close> exactly when \<open>eofbit\<close> is clear.
\<close>

record ifstream =
  rest :: string
  eofbit :: bool

definition newline :: char where
  "newline = CHR 0x0A"

definition tab :: char where
  "tab = CHR 0x09"

text \<open>
  \<open>std::getline(file, line)\<close> into a fresh, empty \<open>line\<close>. On a stream that is not good
  nothing is extracted. Otherwise characters are extracted up to the next newline, which
  is extracted and dropped; when the characters run out first, \<open>eofbit\<close> is set.
\<close>

definition getline :: "ifstream \<Rightarrow> ifstream \<times> string" where
  "getline file =
     (if eofbit file then (file, [])
      else if newline \<in> set (rest file)
      then (file\<lparr>rest := tl (dropWhile (\<lambda>c. c \<noteq> newline) (rest file))\<rparr>,
            takeWhile (\<lambda>c. c \<noteq> newline) (rest file))
      else (file\<lparr>rest := [], eofbit := True\<rparr>, rest file))"

text \<open>
  The \<open>std::istringstream\<close> over one line: the characters left, and whether the stream
  is still good. Once it is not, every later extraction leaves its target unchanged.
\<close>

record istringstream =
  buf :: string
  good :: bool

definition isspace :: "char \<Rightarrow> bool" where
  "isspace c = (c = CHR '' '' \<or> c = CHR 0x09 \<or> c = CHR 0x0A \<or> c = CHR 0x0B
                \<or> c = CHR 0x0C \<or> c = CHR 0x0D)"

definition isdigit :: "char \<Rightarrow> bool" where
  "isdigit c = (c \<in> set ''0123456789'')"

definition digit_val :: "char \<Rightarrow> int" where
  "digit_val c = of_char c - 48"

definition dec_val :: "string \<Rightarrow> int" where
  "dec_val ds = foldl (\<lambda>acc c. 10 * acc + digit_val c) 0 ds"

text \<open>
  \<open>ss >> x\<close> for an \<open>unsigned int\<close>: leading white space is skipped; a stream that
  ends there fails and leaves \<open>x\<close> alone. Then one sign \<open>+\<close> or \<open>-\<close> is accepted,
  and the decimal digits after it. A field with no digit fails and stores 0; digits
  above \<open>UINT_MAX\<close> fail and store \<open>UINT_MAX\<close>; otherwise the value is stored, negated
  modulo \<open>2 ^ 32\<close> after a minus sign (so \<open>-5\<close> stores 4294967291). Digits that reach
  the end of the line set \<open>eofbit\<close>.
\<close>

definition extract_uint :: "istringstream \<Rightarrow> 32 word \<Rightarrow> istringstream \<times> 32 word" where
  "extract_uint ss x =
     (if \<not> good ss then (ss, x)
      else let b = dropWhile isspace (buf ss) in
        if b = [] then (\<lparr>buf = [], good = False\<rparr>, x)
        else
          let negative = (hd b = CHR ''-'');
              b = (if hd b = CHR ''-'' \<or> hd b = CHR ''+'' then tl b else b);
              ds = takeWhile isdigit b;
              r = dropWhile isdigit b
          in if ds = [] then (\<lparr>buf = b, good = False\<rparr>, 0)
             else if dec_val ds > 4294967295 then (\<lparr>buf = r, good = False\<rparr>, - 1)
             else (\<lparr>buf = r, good = (r \<noteq> [])\<rparr>,
                   if negative then - of_int (dec_val ds) else of_int (dec_val ds)))"

text \<open>\<open>ss >> x\<close> for a \<open>std::string\<close>: the next white-space delimited field.\<close>

definition extract_string :: "istringstream \<Rightarrow> string \<Rightarrow> istringstream \<times> string" where
  "extract_string ss x =
     (if \<not> good ss then (ss, x)
      else let b = dropWhile isspace (buf ss) in
        if b = [] then (\<lparr>buf = [], good = False\<rparr>, x)
        else let r = dropWhile (\<lambda>c. \<not> isspace c) b in
          (\<lparr>buf = r, good = (r \<noteq> [])\<rparr>, takeWhile (\<lambda>c. \<not> isspace c) b))"

text \<open>\<open>ss >> std::ws\<close>: skips white space, and sets \<open>eofbit\<close> when the line ends there.\<close>

definition ws :: "istringstream \<Rightarrow> istringstream" where
  "ws ss =
     (if \<not> good ss then ss
      else let b = dropWhile isspace (buf ss) in \<lparr>buf = b, good = (b \<noteq> [])\<rparr>)"

text \<open>
  \<open>read_variant\<close>: the result is the returned flag, the stream after the call and the
  record \<open>v\<close> after the call.
\<close>

definition read_variant :: "ifstream \<Rightarrow> Variant \<Rightarrow> bool \<times> ifstream \<times> Variant" where
  "read_variant file v =
     (let (file', line) = getline file in
      if line = [] then (False, file', v)
      else
        let ss = \<lparr>buf = line, good = True\<rparr>;
            (ss, v_chrom) = extract_uint ss (chrom v);
            ss = ws ss;
            (ss, v_name) = extract_string ss (name v);
            ss = ws ss;
            (ss, cm) = extract_string ss [];
            ss = ws ss;
            (ss, v_position) = extract_uint ss (position v);
            ss = ws ss;
            (ss, v_a1) = extract_string ss (a1 v);
            ss = ws ss;
            (ss, v_a2) = extract_string ss (a2 v)
        in (True, file',
            \<lparr>chrom = v_chrom, name = v_name, position = v_position, a1 = v_a1, a2 = v_a2\<rparr>))"

section \<open>The merge driver\<close>

text \<open>
  \<open>max\<close>: the source returns a pointer into \<open>li\<close>; the model returns its index.
\<close>

definition max_variant :: "Variant list \<Rightarrow> nat \<Rightarrow> nat" where
  "max_variant li n =
     fold (\<lambda>i greatest. if op_gt (li ! i) (li ! greatest) then i else greatest) [1..<n] 0"

text \<open>
  \<open>read_variants_until_max\<close>. In \<open>main\<close> the parameter \<open>max\<close> is a reference to the
  element \<open>cur[m]\<close> of the very array the loop writes to, so the model reads \<open>cur ! m\<close>
  afresh in every iteration.
\<close>

definition read_variants_until_max ::
  "ifstream list \<Rightarrow> Variant list \<Rightarrow> nat \<Rightarrow> nat \<Rightarrow> ifstream list \<times> Variant list" where
  "read_variants_until_max fs cs m n =
     fold (\<lambda>i (fs, cs).
             if op_lt (cs ! i) (cs ! m) \<and> \<not> eofbit (fs ! i)
             then (case read_variant (fs ! i) (cs ! i) of
                     (ok, f', v') \<Rightarrow> (fs[i := f'], cs[i := v']))
             else (fs, cs))
          [0..<n] (fs, cs)"

text \<open>\<open>read_variants\<close>.\<close>

definition read_variants ::
  "ifstream list \<Rightarrow> Variant list \<Rightarrow> nat \<Rightarrow> ifstream list \<times> Variant list" where
  "read_variants fs cs n =
     fold (\<lambda>i (fs, cs).
             if \<not> eofbit (fs ! i)
             then (case read_variant (fs ! i) (cs ! i) of
                     (ok, f', v') \<Rightarrow> (fs[i := f'], cs[i := v']))
             else (fs, cs))
          [0..<n] (fs, cs)"

text \<open>\<open>any_eof\<close>.\<close>

definition any_eof :: "ifstream list \<Rightarrow> nat \<Rightarrow> bool" where
  "any_eof fs n = list_ex (\<lambda>i. eofbit (fs ! i)) [0..<n]"

section \<open>The result sink\<close>

text \<open>An output stream is the text written to it so far.\<close>

type_synonym ofstream = string

record Log =
  n_files :: nat
  names_lists :: "ofstream list"
  matches_bim :: ofstream
  mismatches_bim :: ofstream

text \<open>Decimal output of a number that is not negative, as \<open>operator<<\<close> prints it.\<close>

function dec :: "int \<Rightarrow> string" where
  "dec n = (if n < 10 then [''0123456789'' ! nat n]
            else dec (n div 10) @ [''0123456789'' ! nat (n mod 10)])"
  by pat_completeness auto
termination
  by (relation "measure nat") auto

declare dec.simps [simp del]

text \<open>\<open>write_bim_line\<close>; \<open>std::endl\<close> writes a newline.\<close>

definition write_bim_line :: "Variant \<Rightarrow> ofstream \<Rightarrow> ofstream" where
  "write_bim_line v file =
     file @ dec (uint (chrom v)) @ [tab] @ name v @ [tab] @ ''0'' @ [tab]
          @ dec (uint (position v)) @ [tab] @ a1 v @ [tab] @ a2 v @ [newline]"

text \<open>
  \<open>check_match\<close>: the returned flag and the log after the call. The \<open>else\<close> branch of
  the source holds only comments.
\<close>

definition check_match :: "Variant list \<Rightarrow> nat \<Rightarrow> Log \<Rightarrow> bool \<times> Log" where
  "check_match li n lg =
     (let first = li ! 0;
          all_match = fold (\<lambda>i all_match.
                              if \<not> alleles_eq (li ! i) first then False else all_match)
                        [1..<n] True
      in if all_match
         then
           let (wrote_bim_line, lg) =
                 fold (\<lambda>i (wrote_bim_line, lg).
                         let lg = lg\<lparr>names_lists :=
                                       (names_lists lg)[i := names_lists lg ! i @ name (li ! i) @ [newline]]\<rparr>
                         in if \<not> wrote_bim_line \<and> a1 (li ! i) \<noteq> ''0'' \<and> a2 (li ! i) \<noteq> ''0''
                            then (True, lg\<lparr>matches_bim := write_bim_line (li ! i) (matches_bim lg)\<rparr>)
                            else (wrote_bim_line, lg))
                      [0..<n] (False, lg)
           in if \<not> wrote_bim_line
              then (all_match, lg\<lparr>matches_bim := write_bim_line (li ! 0) (matches_bim lg)\<rparr>)
              else (all_match, lg)
         else (all_match, lg))"

section \<open>The main loop\<close>

text \<open>The variables of \<open>main\<close> that the loop reads and writes.\<close>

record main_state =
  files :: "ifstream list"
  cur :: "Variant list"
  log :: Log

text \<open>The body of the \<open>while\<close> loop of \<open>main\<close>, for \<open>n_files = n\<close>.\<close>

definition loop_body :: "nat \<Rightarrow> main_state \<Rightarrow> main_state" where
  "loop_body n s =
     (case check_match (cur s) n (log s) of
        (matched, lg) \<Rightarrow>
          if \<not> matched
          then (case read_variants_until_max (files s) (cur s) (max_variant (cur s) n) n of
                  (fs, cs) \<Rightarrow> \<lparr>files = fs, cur = cs, log = lg\<rparr>)
          else (case read_variants (files s) (cur s) n of
                  (fs, cs) \<Rightarrow> \<lparr>files = fs, cur = cs, log = lg\<rparr>))"

text \<open>
  The \<open>while\<close> loop of \<open>main\<close>. It need not terminate: \<open>None\<close> is the run that never
  leaves the loop.
\<close>

partial_function (option) main_loop :: "nat \<Rightarrow> main_state \<Rightarrow> main_state option" where
  "main_loop n s =
     (if \<not> any_eof (files s) n then main_loop n (loop_body n s) else Some s)"

declare main_loop.simps [code]

section \<open>The program\<close>

text \<open>
  What \<open>main\<close> sees of its environment: the contents of the files that exist, which
  names can be opened for writing, and the text sent to \<open>std::cout\<close> and \<open>std::cerr\<close>.
  Opening an \<open>std::ofstream\<close> on a writable name creates the file or empties it;
  opening an \<open>std::ifstream\<close> succeeds on a name that exists.
\<close>

record world =
  disk :: "string \<Rightarrow> string option"
  writable :: "string \<Rightarrow> bool"
  cout :: string
  cerr :: string

text \<open>
  The first loop of \<open>Log::open\<close>, over the indices still to open: the flag is
  \<open>False\<close> when \<open>throw 1\<close> was reached.
\<close>

fun open_names_lists :: "nat list \<Rightarrow> world \<Rightarrow> bool \<times> world" where
  "open_names_lists [] w = (True, w)"
| "open_names_lists (i # rest_is) w =
     (let filename = ''bij_names_'' @ dec (int i + 1) @ ''.txt'' in
      if writable w filename
      then open_names_lists rest_is (w\<lparr>disk := (disk w)(filename \<mapsto> [])\<rparr>)
      else (False, w\<lparr>cerr := cerr w @ ''Could not write to '' @ filename @ [newline]\<rparr>))"

text \<open>\<open>Log::open\<close>: \<open>None\<close> is the exception \<open>throw 1\<close>.\<close>

definition Log_open :: "nat \<Rightarrow> world \<Rightarrow> Log option \<times> world" where
  "Log_open n w =
     (case open_names_lists [0..<n] w of
        (False, w) \<Rightarrow> (None, w)
      | (True, w) \<Rightarrow>
          if \<not> writable w ''bij_matches.bim''
          then (None, w\<lparr>cerr := cerr w @ ''Could not write to '' @ ''bij_matches.bim'' @ [newline]\<rparr>)
          else
            let w = w\<lparr>disk := (disk w)(''bij_matches.bim'' \<mapsto> [])\<rparr> in
            if \<not> writable w ''bij_mismatches.bim''
            then (None, w\<lparr>cerr := cerr w @ ''Could not write to '' @ ''bij_mismatches.bim''
                                   @ [newline]\<rparr>)
            else (Some \<lparr>n_files = n, names_lists = replicate n [], matches_bim = [],
                        mismatches_bim = []\<rparr>,
                  w\<lparr>disk := (disk w)(''bij_mismatches.bim'' \<mapsto> [])\<rparr>))"

text \<open>The text \<open>print_usage\<close> writes.\<close>

definition usage_text :: string where
  "usage_text = ''Usage: '' @ [newline] @ [tab] @ ''bim-inner-join file1.bim [ file2.bim, ... ]''
                 @ [newline]"

text \<open>\<open>print_usage\<close>.\<close>

definition print_usage :: "world \<Rightarrow> int \<times> world" where
  "print_usage w = (1, w\<lparr>cout := cout w @ usage_text\<rparr>)"

text \<open>
  The loop of \<open>main\<close> that opens the input files, over the names still to open:
  \<open>None\<close> is the \<open>return 1\<close> inside the loop.
\<close>

fun open_files :: "string list \<Rightarrow> world \<Rightarrow> ifstream list option \<times> world" where
  "open_files [] w = (Some [], w)"
| "open_files (arg # args) w =
     (let w = w\<lparr>cout := cout w @ ''Opening: '' @ arg @ [newline]\<rparr> in
      case disk w arg of
        None \<Rightarrow> (None, w\<lparr>cout := cout w @ ''Could not find file: '' @ arg @ [newline]\<rparr>)
      | Some content \<Rightarrow>
          (case open_files args w of
             (None, w) \<Rightarrow> (None, w)
           | (Some opened, w) \<Rightarrow> (Some (\<lparr>rest = content, eofbit = False\<rparr> # opened), w)))"

text \<open>
  The array \<open>Variant cur[n_files]\<close> before the first read: the strings are empty, the
  two numbers are whatever the memory holds, given by \<open>uninit\<close>.
\<close>

definition default_cur :: "(nat \<Rightarrow> 32 word \<times> 32 word) \<Rightarrow> nat \<Rightarrow> Variant list" where
  "default_cur uninit n =
     map (\<lambda>i. \<lparr>chrom = fst (uninit i), name = [], position = snd (uninit i), a1 = [], a2 = []\<rparr>)
       [0..<n]"

text \<open>The state on entry to the \<open>while\<close> loop, after the first \<open>read_variants\<close>.\<close>

definition loop_entry :: "nat \<Rightarrow> ifstream list \<Rightarrow> Variant list \<Rightarrow> Log \<Rightarrow> main_state" where
  "loop_entry n fl cs lg =
     (case read_variants fl cs n of (fl, cs) \<Rightarrow> \<lparr>files = fl, cur = cs, log = lg\<rparr>)"

text \<open>
  \<open>main\<close>, for the arguments \<open>argv[1]\<close>, ..., \<open>argv[argc - 1]\<close>. The result is the exit
  status, the environment at exit and, when the loop was run, the state it ended in;
  \<open>None\<close> is the run that never leaves the loop.
\<close>

definition main :: "string list \<Rightarrow> (nat \<Rightarrow> 32 word \<times> 32 word) \<Rightarrow> world
    \<Rightarrow> (int \<times> world \<times> main_state option) option" where
  "main args uninit w =
     (let argc = length args + 1;
          n_files = argc - 1
      in case Log_open n_files w of
           (None, w) \<Rightarrow> Some (1, w, None)
         | (Some lg, w) \<Rightarrow>
             if argc \<le> 2 then (case print_usage w of (code, w) \<Rightarrow> Some (code, w, None))
             else
               (case open_files args w of
                  (None, w) \<Rightarrow> Some (1, w, None)
                | (Some fl, w) \<Rightarrow>
                    (case main_loop n_files (loop_entry n_files fl (default_cur uninit n_files) lg) of
                       None \<Rightarrow> None
                     | Some s \<Rightarrow> Some (0, w, Some s))))"

section \<open>Notions used in the analysis\<close>

text \<open>
  The second loop of \<open>check_match\<close> run for the first \<open>k\<close> indices: the flag
  \<open>wrote_bim_line\<close> and the log after these iterations.
\<close>

definition write_loop :: "Variant list \<Rightarrow> nat \<Rightarrow> Log \<Rightarrow> bool \<times> Log" where
  "write_loop li k lg =
     fold (\<lambda>i (wrote_bim_line, lg).
             let lg = lg\<lparr>names_lists :=
                           (names_lists lg)[i := names_lists lg ! i @ name (li ! i) @ [newline]]\<rparr>
             in if \<not> wrote_bim_line \<and> a1 (li ! i) \<noteq> ''0'' \<and> a2 (li ! i) \<noteq> ''0''
                then (True, lg\<lparr>matches_bim := write_bim_line (li ! i) (matches_bim lg)\<rparr>)
                else (wrote_bim_line, lg))
          [0..<k] (False, lg)"

text \<open>A record both of whose alleles are known.\<close>

definition no_sentinel :: "Variant \<Rightarrow> bool" where
  "no_sentinel v = (a1 v \<noteq> ''0'' \<and> a2 v \<noteq> ''0'')"

text \<open>
  The number of lines of a text, as \<open>std::getline\<close> delivers them: one for every
  newline, and one more for characters after the last newline. Empty lines are counted,
  so this is the record count of a file only when the file has no empty line.
\<close>

function line_count :: "string \<Rightarrow> nat" where
  "line_count s =
     (if s = [] then 0
      else if newline \<in> set s
      then Suc (line_count (tl (dropWhile (\<lambda>c. c \<noteq> newline) s)))
      else 1)"
  by pat_completeness auto
termination
proof (relation "measure length")
  show "wf (measure length)" by simp
next
  fix s :: string
  assume "s \<noteq> []" and "newline \<in> set s"
  then have "dropWhile (\<lambda>c. c \<noteq> newline) s \<noteq> []"
    by simp
  then have "length (tl (dropWhile (\<lambda>c. c \<noteq> newline) s))
               < length (dropWhile (\<lambda>c. c \<noteq> newline) s)"
    by (cases "dropWhile (\<lambda>c. c \<noteq> newline) s") simp_all
  also have "\<dots> \<le> length s"
    by (rule length_dropWhile_le)
  finally show "(tl (dropWhile (\<lambda>c. c \<noteq> newline) s), s) \<in> measure length"
    by simp
qed

declare line_count.simps [simp del]

text \<open>
  The record count of a file: the lines that are not empty, which are the lines
  \<open>read_variant\<close> turns into a record.
\<close>

function record_count :: "string \<Rightarrow> nat" where
  "record_count s =
     (if s = [] then 0
      else if newline \<in> set s
      then (if takeWhile (\<lambda>c. c \<noteq> newline) s = [] then 0 else 1)
           + record_count (tl (dropWhile (\<lambda>c. c \<noteq> newline) s))
      else 1)"
  by pat_completeness auto
termination
proof (relation "measure length")
  show "wf (measure length)" by simp
next
  fix s :: string
  assume "s \<noteq> []" and "newline \<in> set s"
  then have "dropWhile (\<lambda>c. c \<noteq> newline) s \<noteq> []"
    by simp
  then have "length (tl (dropWhile (\<lambda>c. c \<noteq> newline) s))
               < length (dropWhile (\<lambda>c. c \<noteq> newline) s)"
    by (cases "dropWhile (\<lambda>c. c \<noteq> newline) s") simp_all
  also have "\<dots> \<le> length s"
    by (rule length_dropWhile_le)
  finally show "(tl (dropWhile (\<lambda>c. c \<noteq> newline) s), s) \<in> measure length"
    by simp
qed

declare record_count.simps [simp del]

text \<open>
  The calls of \<open>std::getline\<close> a stream can still take before \<open>eof()\<close> holds: one for
  every line left, and one more that finds the stream empty and sets \<open>eofbit\<close>.
\<close>

definition pending :: "ifstream \<Rightarrow> nat" where
  "pending file = line_count (rest file) + (if eofbit file then 0 else 1)"

text \<open>The calls of \<open>std::getline\<close> all \<open>n\<close> streams together can still take.\<close>

definition total_pending :: "nat \<Rightarrow> main_state \<Rightarrow> nat" where
  "total_pending n s = (\<Sum>i<n. pending (files s ! i))"

text \<open>
  The frontier of the edge case: no stream is at its end, the match test fails, and
  every current record has the locus of record 0.
\<close>

definition tie_mismatch :: "nat \<Rightarrow> main_state \<Rightarrow> bool" where
  "tie_mismatch n s =
     (\<not> any_eof (files s) n \<and> \<not> fst (check_match (cur s) n (log s)) \<and>
      list_all (\<lambda>i. op_eq (cur s ! i) (cur s ! 0)) [0..<n])"

section \<open>Example inputs\<close>

text \<open>Two records at different loci, and the streams behind them.\<close>

definition ex_rs1 :: Variant where
  "ex_rs1 = \<lparr>chrom = 1, name = ''rs1'', position = 100, a1 = ''A'', a2 = ''G''\<rparr>"

definition ex_rs2b :: Variant where
  "ex_rs2b = \<lparr>chrom = 1, name = ''rs2b'', position = 200, a1 = ''A'', a2 = ''T''\<rparr>"

definition ex_log :: Log where
  "ex_log = \<lparr>n_files = 2, names_lists = [[], []], matches_bim = [], mismatches_bim = []\<rparr>"

definition ex_behind :: main_state where
  "ex_behind =
     \<lparr>files = [\<lparr>rest = ''1 rs2 0 200 A T'' @ [newline], eofbit = False\<rparr>,
               \<lparr>rest = [], eofbit = False\<rparr>],
      cur = [ex_rs1, ex_rs2b],
      log = ex_log\<rparr>"

text \<open>The same locus with one allele unknown in the first record.\<close>

definition ex_sentinel :: "Variant list" where
  "ex_sentinel =
     [\<lparr>chrom = 1, name = ''rs1'', position = 100, a1 = ''A'', a2 = ''0''\<rparr>,
      \<lparr>chrom = 1, name = ''rs1b'', position = 100, a1 = ''A'', a2 = ''G''\<rparr>]"

text \<open>The same locus with four different alleles.\<close>

definition ex_clash :: "Variant list" where
  "ex_clash =
     [\<lparr>chrom = 1, name = ''rs1'', position = 100, a1 = ''A'', a2 = ''G''\<rparr>,
      \<lparr>chrom = 1, name = ''rs1b'', position = 100, a1 = ''C'', a2 = ''T''\<rparr>]"

text \<open>Three records at one locus: each agrees with the first, the last two clash.\<close>

definition ex_three :: "Variant list" where
  "ex_three =
     [\<lparr>chrom = 1, name = ''r0'', position = 100, a1 = ''A'', a2 = ''0''\<rparr>,
      \<lparr>chrom = 1, name = ''r1'', position = 100, a1 = ''A'', a2 = ''G''\<rparr>,
      \<lparr>chrom = 1, name = ''r2'', position = 100, a1 = ''A'', a2 = ''T''\<rparr>]"

text \<open>Three records whose greatest locus occurs twice.\<close>

definition ex_ties :: "Variant list" where
  "ex_ties =
     [\<lparr>chrom = 1, name = ''x'', position = 100, a1 = ''A'', a2 = ''G''\<rparr>,
      \<lparr>chrom = 1, name = ''y'', position = 200, a1 = ''A'', a2 = ''G''\<rparr>,
      \<lparr>chrom = 1, name = ''z'', position = 200, a1 = ''A'', a2 = ''G''\<rparr>]"

text \<open>Two files of two lines each whose first records clash at one locus.\<close>

definition ex_clash_files :: "ifstream list" where
  "ex_clash_files =
     [\<lparr>rest = ''1 rs1 0 100 A G'' @ [newline] @ ''1 rs2 0 200 A T'' @ [newline], eofbit = False\<rparr>,
      \<lparr>rest = ''1 rs1b 0 100 C T'' @ [newline] @ ''1 rs2b 0 200 A T'' @ [newline],
        eofbit = False\<rparr>]"

text \<open>A file of two lines and a file of one line that matches the second.\<close>

definition ex_lag_files :: "ifstream list" where
  "ex_lag_files =
     [\<lparr>rest = ''1 rs1 0 100 A G'' @ [newline] @ ''1 rs2 0 200 A T'' @ [newline], eofbit = False\<rparr>,
      \<lparr>rest = ''1 rs2b 0 200 A T'' @ [newline], eofbit = False\<rparr>]"

text \<open>What the cursor array holds before the first read.\<close>

definition ex_uninit :: "nat \<Rightarrow> 32 word \<times> 32 word" where
  "ex_uninit i = (0, 0)"

text \<open>An environment in which no file can be opened for writing.\<close>

definition ex_read_only :: world where
  "ex_read_only = \<lparr>disk = (\<lambda>_. None), writable = (\<lambda>_. False), cout = [], cerr = []\<rparr>"

text \<open>An environment in which every file can be opened for writing.\<close>

definition ex_writable :: world where
  "ex_writable = \<lparr>disk = (\<lambda>_. None), writable = (\<lambda>_. True), cout = [], cerr = []\<rparr>"

text \<open>An environment that holds the two clashing files.\<close>

definition ex_clash_world :: world where
  "ex_clash_world =
     \<lparr>disk = [''a.bim'' \<mapsto> rest (ex_clash_files ! 0), ''b.bim'' \<mapsto> rest (ex_clash_files ! 1)],
      writable = (\<lambda>_. True), cout = [], cerr = []\<rparr>"

section \<open>Properties of the variant record\<close>

text \<open>
  Claim C2. For all records \<open>a\<close> and \<open>b\<close>, \<open>alleles_eq a b\<close> holds exactly when the two
  records have the same chromosome and the same position and the set of the alleles
  among \<open>a1 a\<close>, \<open>a2 a\<close>, \<open>a1 b\<close>, \<open>a2 b\<close> that differ from the sentinel \<open>''0''\<close> has at
  most two elements.
\<close>

theorem alleles_eq_iff:
  "alleles_eq a b \<longleftrightarrow>
     (chrom a = chrom b \<and> position a = position b) \<and>
     card {x \<in> {a1 a, a2 a, a1 b, a2 b}. x \<noteq> ''0''} \<le> 2"
proof -
  define A where "A = (if a1 a \<noteq> ''0'' then List.insert (a1 a) [] else [])"
  define B where "B = (if a2 a \<noteq> ''0'' then List.insert (a2 a) A else A)"
  define C where "C = (if a1 b \<noteq> ''0'' then List.insert (a1 b) B else B)"
  define D where "D = (if a2 b \<noteq> ''0'' then List.insert (a2 b) C else C)"
  have dA: "distinct A" by (simp add: A_def)
  have dB: "distinct B" using dA by (simp add: B_def)
  have dC: "distinct C" using dB by (simp add: C_def)
  have dD: "distinct D" using dC by (simp add: D_def)
  have sD: "set D = {x \<in> {a1 a, a2 a, a1 b, a2 b}. x \<noteq> ''0''}"
    unfolding D_def C_def B_def A_def by auto
  have "length D = card (set D)"
    using dD by (simp add: distinct_card)
  then have "length D = card {x \<in> {a1 a, a2 a, a1 b, a2 b}. x \<noteq> ''0''}"
    using sD by simp
  moreover have "alleles_eq a b \<longleftrightarrow> op_eq a b \<and> length D \<le> 2"
    unfolding alleles_eq_def Let_def D_def C_def B_def A_def by simp
  ultimately show ?thesis
    by (simp add: op_eq_def)
qed

section \<open>The locus order and the maximum\<close>

lemma op_gt_conv: "op_gt a b = op_lt b a"
  by (auto simp: op_gt_def op_lt_def)

lemma op_lt_irrefl: "\<not> op_lt a a"
  by (simp add: op_lt_def)

lemma op_lt_trans: "op_lt a b \<Longrightarrow> op_lt b c \<Longrightarrow> op_lt a c"
  by (auto simp: op_lt_def split: if_splits)

lemma op_lt_total: "\<not> op_lt a b \<Longrightarrow> \<not> op_lt b a \<Longrightarrow> op_eq a b"
  by (auto simp: op_lt_def op_eq_def split: if_splits)

lemma op_lt_le_trans: "op_lt a b \<Longrightarrow> \<not> op_lt c b \<Longrightarrow> op_lt a c"
  by (auto simp: op_lt_def split: if_splits)

lemma op_eq_sym: "op_eq a b \<Longrightarrow> op_eq b a"
  by (simp add: op_eq_def)

lemma op_eq_trans: "op_eq a b \<Longrightarrow> op_eq b c \<Longrightarrow> op_eq a c"
  by (simp add: op_eq_def)

lemma upt_from_one_Suc: "1 \<le> k \<Longrightarrow> [1..<Suc k] = [1..<k] @ [k]"
  by simp

lemma max_variant_Suc:
  "1 \<le> k \<Longrightarrow> max_variant li (Suc k) =
     (if op_gt (li ! k) (li ! max_variant li k) then k else max_variant li k)"
  by (simp add: max_variant_def)

lemma max_variant_one: "max_variant li (Suc 0) = 0"
  by (simp add: max_variant_def)

lemma max_variant_inv:
  "1 \<le> k \<Longrightarrow>
     max_variant li k < k \<and>
     (\<forall>i<k. \<not> op_gt (li ! i) (li ! max_variant li k)) \<and>
     (\<forall>i<max_variant li k. op_lt (li ! i) (li ! max_variant li k))"
proof (induction k)
  case 0
  then show ?case by simp
next
  case (Suc k)
  show ?case
  proof (cases "k = 0")
    case True
    then show ?thesis
      by (simp add: max_variant_one op_gt_conv op_lt_irrefl)
  next
    case False
    then have k1: "1 \<le> k" by simp
    note ih = Suc.IH [OF k1]
    let ?g = "max_variant li k"
    show ?thesis
    proof (cases "op_gt (li ! k) (li ! ?g)")
      case True
      then have eq: "max_variant li (Suc k) = k"
        using k1 by (simp add: max_variant_Suc)
      have a: "\<forall>i<Suc k. \<not> op_gt (li ! i) (li ! k)"
      proof (intro allI impI)
        fix i assume "i < Suc k"
        show "\<not> op_gt (li ! i) (li ! k)"
        proof (cases "i = k")
          case True
          then show ?thesis by (simp add: op_gt_conv op_lt_irrefl)
        next
          case False
          with \<open>i < Suc k\<close> have "i < k" by simp
          with ih have "\<not> op_lt (li ! ?g) (li ! i)" by (simp add: op_gt_conv)
          moreover from True have "op_lt (li ! ?g) (li ! k)" by (simp add: op_gt_conv)
          ultimately show ?thesis
            unfolding op_gt_conv using op_lt_trans op_lt_le_trans
            by (metis op_lt_irrefl)
        qed
      qed
      have b: "\<forall>i<k. op_lt (li ! i) (li ! k)"
      proof (intro allI impI)
        fix i assume "i < k"
        with ih have "\<not> op_lt (li ! ?g) (li ! i)" by (simp add: op_gt_conv)
        moreover from True have "op_lt (li ! ?g) (li ! k)" by (simp add: op_gt_conv)
        ultimately show "op_lt (li ! i) (li ! k)"
          by (auto simp: op_lt_def split: if_splits)
      qed
      show ?thesis using a b by (simp add: eq)
    next
      case False
      then have eq: "max_variant li (Suc k) = ?g"
        using k1 by (simp add: max_variant_Suc)
      have "\<forall>i<Suc k. \<not> op_gt (li ! i) (li ! ?g)"
        using ih False by (auto simp: less_Suc_eq)
      then show ?thesis using ih by (simp add: eq)
    qed
  qed
qed

section \<open>The match test\<close>

lemma fold_all_match:
  "fold (\<lambda>i am. if \<not> P i then False else am) xs b = (b \<and> (\<forall>i\<in>set xs. P i))"
  by (induction xs arbitrary: b) auto

lemma check_match_flag:
  "fst (check_match li n lg) = (\<forall>i. 1 \<le> i \<and> i < n \<longrightarrow> alleles_eq (li ! i) (li ! 0))"
proof -
  have "fst (check_match li n lg) =
          fold (\<lambda>i am. if \<not> alleles_eq (li ! i) (li ! 0) then False else am) [1..<n] True"
    by (simp add: check_match_def Let_def split: prod.splits)
  then show ?thesis
    by (auto simp: fold_all_match)
qed

lemma check_match_mismatch_log:
  "\<not> fst (check_match li n lg) \<Longrightarrow> snd (check_match li n lg) = lg"
  by (simp add: check_match_def Let_def split: prod.splits if_splits)

section \<open>The reading loops\<close>

lemma read_variants_until_max_Suc:
  "read_variants_until_max fs cs m (Suc k) =
     (case read_variants_until_max fs cs m k of
        (fs1, cs1) \<Rightarrow>
          if op_lt (cs1 ! k) (cs1 ! m) \<and> \<not> eofbit (fs1 ! k)
          then (case read_variant (fs1 ! k) (cs1 ! k) of
                  (ok, f', v') \<Rightarrow> (fs1[k := f'], cs1[k := v']))
          else (fs1, cs1))"
  by (simp add: read_variants_until_max_def)

lemma read_variants_until_max_nth:
  assumes "k \<le> length fs" "length fs = length cs"
  shows "case read_variants_until_max fs cs m k of
          (fs', cs') \<Rightarrow>
            length fs' = length fs \<and> length cs' = length cs \<and>
            (\<forall>i. fs' ! i = (if i < k \<and> op_lt (cs ! i) (cs ! m) \<and> \<not> eofbit (fs ! i)
                             then fst (snd (read_variant (fs ! i) (cs ! i))) else fs ! i)) \<and>
            (\<forall>i. cs' ! i = (if i < k \<and> op_lt (cs ! i) (cs ! m) \<and> \<not> eofbit (fs ! i)
                             then snd (snd (read_variant (fs ! i) (cs ! i))) else cs ! i))"
  using assms
proof (induction k)
  case 0
  then show ?case by (simp add: read_variants_until_max_def)
next
  case (Suc k)
  obtain fs1 cs1 where p: "read_variants_until_max fs cs m k = (fs1, cs1)"
    by (cases "read_variants_until_max fs cs m k")
  from Suc p have l1: "length fs1 = length fs" and l2: "length cs1 = length cs"
    and f1: "\<And>i. fs1 ! i = (if i < k \<and> op_lt (cs ! i) (cs ! m) \<and> \<not> eofbit (fs ! i)
                             then fst (snd (read_variant (fs ! i) (cs ! i))) else fs ! i)"
    and c1: "\<And>i. cs1 ! i = (if i < k \<and> op_lt (cs ! i) (cs ! m) \<and> \<not> eofbit (fs ! i)
                             then snd (snd (read_variant (fs ! i) (cs ! i))) else cs ! i)"
    by simp_all
  have fk: "fs1 ! k = fs ! k" and ck: "cs1 ! k = cs ! k"
    by (simp_all add: f1 c1)
  have cm: "cs1 ! m = cs ! m"
    by (simp add: c1 op_lt_irrefl)
  have kf: "k < length fs1" and kc: "k < length cs1"
    using Suc.prems l1 l2 by simp_all
  show ?case
    using kf kc l1 l2
    by (auto simp: read_variants_until_max_Suc p fk ck cm f1 c1 op_lt_irrefl nth_list_update
          less_Suc_eq split: prod.splits)
qed

lemma read_variants_Suc:
  "read_variants fs cs (Suc k) =
     (case read_variants fs cs k of
        (fs1, cs1) \<Rightarrow>
          if \<not> eofbit (fs1 ! k)
          then (case read_variant (fs1 ! k) (cs1 ! k) of
                  (ok, f', v') \<Rightarrow> (fs1[k := f'], cs1[k := v']))
          else (fs1, cs1))"
  by (simp add: read_variants_def)

lemma read_variants_nth:
  assumes "k \<le> length fs" "length fs = length cs"
  shows "case read_variants fs cs k of
          (fs', cs') \<Rightarrow>
            length fs' = length fs \<and> length cs' = length cs \<and>
            (\<forall>i. fs' ! i = (if i < k \<and> \<not> eofbit (fs ! i)
                             then fst (snd (read_variant (fs ! i) (cs ! i))) else fs ! i)) \<and>
            (\<forall>i. cs' ! i = (if i < k \<and> \<not> eofbit (fs ! i)
                             then snd (snd (read_variant (fs ! i) (cs ! i))) else cs ! i))"
  using assms
proof (induction k)
  case 0
  then show ?case by (simp add: read_variants_def)
next
  case (Suc k)
  obtain fs1 cs1 where p: "read_variants fs cs k = (fs1, cs1)"
    by (cases "read_variants fs cs k")
  from Suc p have l1: "length fs1 = length fs" and l2: "length cs1 = length cs"
    and f1: "\<And>i. fs1 ! i = (if i < k \<and> \<not> eofbit (fs ! i)
                             then fst (snd (read_variant (fs ! i) (cs ! i))) else fs ! i)"
    and c1: "\<And>i. cs1 ! i = (if i < k \<and> \<not> eofbit (fs ! i)
                             then snd (snd (read_variant (fs ! i) (cs ! i))) else cs ! i)"
    by simp_all
  have fk: "fs1 ! k = fs ! k" and ck: "cs1 ! k = cs ! k"
    by (simp_all add: f1 c1)
  have kf: "k < length fs1" and kc: "k < length cs1"
    using Suc.prems l1 l2 by simp_all
  show ?case
    using kf kc l1 l2
    by (auto simp: read_variants_Suc p fk ck f1 c1 nth_list_update
          less_Suc_eq split: prod.splits)
qed

lemma any_eof_iff: "any_eof fs n = (\<exists>i<n. eofbit (fs ! i))"
  by (auto simp: any_eof_def list_ex_iff)

lemma read_variant_empty_line:
  "snd (getline file) = [] \<Longrightarrow> read_variant file v = (False, fst (getline file), v)"
  by (cases "getline file") (simp add: read_variant_def)

lemma getline_exhausted:
  "rest file = [] \<Longrightarrow> snd (getline file) = [] \<and> (eofbit (fst (getline file)))"
  by (simp add: getline_def)

lemma read_variant_file: "fst (snd (read_variant file v)) = fst (getline file)"
  by (simp add: read_variant_def Let_def split: prod.splits)

section \<open>The writes of the match test\<close>

lemma write_loop_Suc:
  "write_loop li (Suc k) lg =
     (case write_loop li k lg of
        (w, lg1) \<Rightarrow>
          let lg2 = lg1\<lparr>names_lists :=
                          (names_lists lg1)[k := names_lists lg1 ! k @ name (li ! k) @ [newline]]\<rparr>
          in if \<not> w \<and> no_sentinel (li ! k)
             then (True, lg2\<lparr>matches_bim := write_bim_line (li ! k) (matches_bim lg2)\<rparr>)
             else (w, lg2))"
  by (simp add: write_loop_def no_sentinel_def)

lemma find_snoc:
  "find P (xs @ [x]) =
     (case find P xs of None \<Rightarrow> (if P x then Some x else None) | Some v \<Rightarrow> Some v)"
  by (induction xs) simp_all

lemma write_loop_inv:
  assumes "k \<le> length li" "k \<le> length (names_lists lg)"
  shows "case write_loop li k lg of
           (w, lg') \<Rightarrow>
             w = (find no_sentinel (take k li) \<noteq> None) \<and>
             length (names_lists lg') = length (names_lists lg) \<and>
             (\<forall>i. names_lists lg' ! i =
                    (if i < k then names_lists lg ! i @ name (li ! i) @ [newline]
                     else names_lists lg ! i)) \<and>
             matches_bim lg' =
               (case find no_sentinel (take k li) of
                  None \<Rightarrow> matches_bim lg
                | Some v \<Rightarrow> write_bim_line v (matches_bim lg)) \<and>
             mismatches_bim lg' = mismatches_bim lg \<and>
             n_files lg' = n_files lg"
  using assms
proof (induction k)
  case 0
  then show ?case by (simp add: write_loop_def)
next
  case (Suc k)
  obtain w lg1 where p: "write_loop li k lg = (w, lg1)"
    by (cases "write_loop li k lg")
  from Suc p have w: "w = (find no_sentinel (take k li) \<noteq> None)"
    and l: "length (names_lists lg1) = length (names_lists lg)"
    and nm: "\<And>i. names_lists lg1 ! i =
                    (if i < k then names_lists lg ! i @ name (li ! i) @ [newline]
                     else names_lists lg ! i)"
    and mb: "matches_bim lg1 =
               (case find no_sentinel (take k li) of
                  None \<Rightarrow> matches_bim lg
                | Some v \<Rightarrow> write_bim_line v (matches_bim lg))"
    and mm: "mismatches_bim lg1 = mismatches_bim lg"
    and nf: "n_files lg1 = n_files lg"
    by simp_all
  have tk: "take (Suc k) li = take k li @ [li ! k]"
    using Suc.prems by (simp add: take_Suc_conv_app_nth)
  have kl: "k < length (names_lists lg1)"
    using Suc.prems l by simp
  have fa: "find no_sentinel (take k li @ [li ! k]) =
              (case find no_sentinel (take k li) of
                 None \<Rightarrow> (if no_sentinel (li ! k) then Some (li ! k) else None)
               | Some v \<Rightarrow> Some v)"
    by (simp add: find_snoc)
  show ?case
    using kl
    by (auto simp: write_loop_Suc p tk fa w l nm mb mm nf Let_def nth_list_update
          split: option.splits)
qed

lemma check_match_matched_log:
  "fst (check_match li n lg) \<Longrightarrow>
     snd (check_match li n lg) =
       (case write_loop li n lg of
          (w, lg') \<Rightarrow>
            if \<not> w then lg'\<lparr>matches_bim := write_bim_line (li ! 0) (matches_bim lg')\<rparr>
            else lg')"
  by (simp add: check_match_def write_loop_def Let_def split: prod.splits if_splits)

section \<open>Lines left in a stream\<close>

lemma pending_getline_less:
  "\<not> eofbit file \<Longrightarrow> pending (fst (getline file)) < pending file"
  by (subst (2) pending_def, subst line_count.simps)
     (auto simp: getline_def pending_def line_count.simps [of "[]"])

lemma pending_getline_first:
  "\<not> eofbit file \<Longrightarrow> pending (fst (getline file)) \<le> line_count (rest file)"
  by (subst line_count.simps)
     (auto simp: getline_def pending_def line_count.simps [of "[]"])

section \<open>Unfolding the main loop\<close>

lemma main_loop_exit: "any_eof (files s) n \<Longrightarrow> main_loop n s = Some s"
  by (subst main_loop.simps) simp

lemma main_loop_step:
  "\<not> any_eof (files s) n \<Longrightarrow> main_loop n s = main_loop n (loop_body n s)"
  by (subst main_loop.simps) simp

lemma main_loop_funpow:
  "(\<And>i. i < j \<Longrightarrow> \<not> any_eof (files ((loop_body n ^^ i) s)) n) \<Longrightarrow>
     main_loop n s = main_loop n ((loop_body n ^^ j) s)"
proof (induction j)
  case 0
  then show ?case by simp
next
  case (Suc j)
  have "main_loop n s = main_loop n ((loop_body n ^^ j) s)"
    using Suc by simp
  also have "\<dots> = main_loop n (loop_body n ((loop_body n ^^ j) s))"
    using Suc.prems [of j] by (simp add: main_loop_step)
  finally show ?case by simp
qed

lemma main_loop_fixed_point:
  assumes "\<not> any_eof (files s) n" "loop_body n s = s"
  shows "main_loop n s = None"
proof (rule ccontr)
  assume "main_loop n s \<noteq> None"
  then obtain y where y: "main_loop n s = Some y" by auto
  have "\<not> (n = n \<and> s = s)"
  proof (rule main_loop.raw_induct [where P = "\<lambda>n' s' y'. \<not> (n' = n \<and> s' = s)", OF _ y])
    fix loop n' s' y'
    assume ih: "\<And>a b c. loop a b = Some c \<Longrightarrow> \<not> (a = n \<and> b = s)"
      and eq: "(if \<not> any_eof (files s') n' then loop n' (loop_body n' s') else Some s') = Some y'"
    show "\<not> (n' = n \<and> s' = s)"
    proof
      assume e: "n' = n \<and> s' = s"
      with eq assms have "loop n s = Some y'" by simp
      with ih show False by blast
    qed
  qed
  then show False by simp
qed

lemma main_loop_Some:
  assumes "main_loop n s = Some s'"
  shows "\<exists>j. s' = (loop_body n ^^ j) s \<and> any_eof (files s') n"
proof (rule main_loop.raw_induct
    [where P = "\<lambda>n s s'. \<exists>j. s' = (loop_body n ^^ j) s \<and> any_eof (files s') n", OF _ assms])
  fix loop n s s'
  assume ih: "\<And>a b c. loop a b = Some c \<Longrightarrow> \<exists>j. c = (loop_body a ^^ j) b \<and> any_eof (files c) a"
    and eq: "(if \<not> any_eof (files s) n then loop n (loop_body n s) else Some s) = Some s'"
  show "\<exists>j. s' = (loop_body n ^^ j) s \<and> any_eof (files s') n"
  proof (cases "any_eof (files s) n")
    case True
    with eq have "s' = s" by simp
    with True show ?thesis by (intro exI [of _ 0]) simp
  next
    case False
    with eq have "loop n (loop_body n s) = Some s'" by simp
    from ih [OF this] obtain j where "s' = (loop_body n ^^ j) (loop_body n s)"
      and "any_eof (files s') n" by blast
    then show ?thesis
      by (intro exI [of _ "Suc j"]) (simp add: funpow_swap1)
  qed
qed

section \<open>One iteration of the main loop\<close>

lemma read_variant_pending_less:
  "\<not> eofbit file \<Longrightarrow> pending (fst (snd (read_variant file v))) < pending file"
  by (simp add: read_variant_file pending_getline_less)

lemma loop_body_mismatch:
  assumes "\<not> fst (check_match (cur s) n (log s))"
  shows "loop_body n s =
           (case read_variants_until_max (files s) (cur s) (max_variant (cur s) n) n of
              (fs, cs) \<Rightarrow> \<lparr>files = fs, cur = cs, log = log s\<rparr>)"
  using assms check_match_mismatch_log [OF assms]
  by (cases "check_match (cur s) n (log s)") (simp add: loop_body_def)

lemma loop_body_match:
  assumes "fst (check_match (cur s) n (log s))"
  shows "loop_body n s =
           (case read_variants (files s) (cur s) n of
              (fs, cs) \<Rightarrow> \<lparr>files = fs, cur = cs, log = snd (check_match (cur s) n (log s))\<rparr>)"
  using assms
  by (cases "check_match (cur s) n (log s)") (simp add: loop_body_def)

lemma loop_body_files_cur:
  assumes "length (files s) = n" "length (cur s) = n"
  shows "length (files (loop_body n s)) = n \<and> length (cur (loop_body n s)) = n \<and>
         (\<forall>i. files (loop_body n s) ! i =
            (if i < n \<and> (fst (check_match (cur s) n (log s)) \<or>
                          op_lt (cur s ! i) (cur s ! max_variant (cur s) n)) \<and>
                \<not> eofbit (files s ! i)
             then fst (snd (read_variant (files s ! i) (cur s ! i))) else files s ! i)) \<and>
         (\<forall>i. cur (loop_body n s) ! i =
            (if i < n \<and> (fst (check_match (cur s) n (log s)) \<or>
                          op_lt (cur s ! i) (cur s ! max_variant (cur s) n)) \<and>
                \<not> eofbit (files s ! i)
             then snd (snd (read_variant (files s ! i) (cur s ! i))) else cur s ! i))"
proof (cases "fst (check_match (cur s) n (log s))")
  case True
  have "case read_variants (files s) (cur s) n of
          (fs', cs') \<Rightarrow>
            length fs' = length (files s) \<and> length cs' = length (cur s) \<and>
            (\<forall>i. fs' ! i = (if i < n \<and> \<not> eofbit (files s ! i)
                             then fst (snd (read_variant (files s ! i) (cur s ! i))) else files s ! i)) \<and>
            (\<forall>i. cs' ! i = (if i < n \<and> \<not> eofbit (files s ! i)
                             then snd (snd (read_variant (files s ! i) (cur s ! i))) else cur s ! i))"
    by (rule read_variants_nth) (simp_all add: assms)
  then show ?thesis
    using True assms by (simp add: loop_body_match split: prod.splits)
next
  case False
  have "case read_variants_until_max (files s) (cur s) (max_variant (cur s) n) n of
          (fs', cs') \<Rightarrow>
            length fs' = length (files s) \<and> length cs' = length (cur s) \<and>
            (\<forall>i. fs' ! i = (if i < n \<and> op_lt (cur s ! i) (cur s ! max_variant (cur s) n) \<and> \<not> eofbit (files s ! i)
                             then fst (snd (read_variant (files s ! i) (cur s ! i))) else files s ! i)) \<and>
            (\<forall>i. cs' ! i = (if i < n \<and> op_lt (cur s ! i) (cur s ! max_variant (cur s) n) \<and> \<not> eofbit (files s ! i)
                             then snd (snd (read_variant (files s ! i) (cur s ! i))) else cur s ! i))"
    by (rule read_variants_until_max_nth) (simp_all add: assms)
  then show ?thesis
    using False assms by (simp add: loop_body_mismatch split: prod.splits)
qed

lemma loop_body_log_mismatch:
  "\<not> fst (check_match (cur s) n (log s)) \<Longrightarrow> log (loop_body n s) = log s"
  by (simp add: loop_body_mismatch split: prod.splits)

lemma loop_body_log:
  "log (loop_body n s) = snd (check_match (cur s) n (log s))"
  by (cases "check_match (cur s) n (log s)") (simp add: loop_body_def split: prod.splits)

lemma tie_mismatch_iff:
  "tie_mismatch n s =
     (\<not> any_eof (files s) n \<and> \<not> fst (check_match (cur s) n (log s)) \<and>
      (\<forall>i<n. op_eq (cur s ! i) (cur s ! 0)))"
  by (auto simp: tie_mismatch_def list_all_iff)

lemma op_eq_not_lt: "op_eq a b \<Longrightarrow> \<not> op_lt a b"
  by (simp add: op_eq_def op_lt_def)

lemma tie_mismatch_fixed:
  assumes "length (files s) = n" "length (cur s) = n" "tie_mismatch n s"
  shows "loop_body n s = s"
proof -
  let ?m = "max_variant (cur s) n"
  from assms(3) have mm: "\<not> fst (check_match (cur s) n (log s))"
    and eq0: "\<And>i. i < n \<Longrightarrow> op_eq (cur s ! i) (cur s ! 0)"
    by (simp_all add: tie_mismatch_iff)
  have nolt: "\<not> op_lt (cur s ! i) (cur s ! ?m)" if "i < n" for i
  proof -
    from that have "1 \<le> n" by simp
    then have "?m < n" using max_variant_inv [of n "cur s"] by simp
    then have "op_eq (cur s ! ?m) (cur s ! 0)" by (rule eq0)
    with eq0 [OF that] have "op_eq (cur s ! i) (cur s ! ?m)"
      by (simp add: op_eq_def)
    then show ?thesis by (rule op_eq_not_lt)
  qed
  note fc = loop_body_files_cur [OF assms(1,2)]
  have f: "files (loop_body n s) = files s"
    by (rule nth_equalityI) (use fc assms mm nolt in auto)
  have c: "cur (loop_body n s) = cur s"
    by (rule nth_equalityI) (use fc assms mm nolt in auto)
  have l: "log (loop_body n s) = log s"
    using mm by (rule loop_body_log_mismatch)
  show ?thesis
    using f c l by simp
qed

lemma not_tie_someone_behind:
  assumes "1 \<le> n" "\<not> any_eof (files s) n" "\<not> tie_mismatch n s"
    "\<not> fst (check_match (cur s) n (log s))"
  shows "\<exists>i<n. op_lt (cur s ! i) (cur s ! max_variant (cur s) n)"
proof (rule ccontr)
  let ?m = "max_variant (cur s) n"
  assume "\<not> (\<exists>i<n. op_lt (cur s ! i) (cur s ! ?m))"
  then have a: "\<And>i. i < n \<Longrightarrow> \<not> op_lt (cur s ! i) (cur s ! ?m)" by blast
  have b: "\<And>i. i < n \<Longrightarrow> \<not> op_lt (cur s ! ?m) (cur s ! i)"
    using max_variant_inv [OF assms(1), of "cur s"] by (simp add: op_gt_conv)
  have e: "op_eq (cur s ! i) (cur s ! ?m)" if "i < n" for i
    using a [OF that] b [OF that] by (rule op_lt_total)
  have "0 < n" using assms(1) by simp
  then have e0: "op_eq (cur s ! 0) (cur s ! ?m)" by (rule e)
  have "op_eq (cur s ! i) (cur s ! 0)" if "i < n" for i
    using e [OF that] e0 by (simp add: op_eq_def)
  then have "tie_mismatch n s"
    using assms(2,4) by (simp add: tie_mismatch_iff)
  with assms(3) show False by simp
qed

lemma loop_body_decreases:
  assumes "length (files s) = n" "length (cur s) = n" "1 \<le> n"
    "\<not> any_eof (files s) n" "\<not> tie_mismatch n s"
  shows "total_pending n (loop_body n s) < total_pending n s"
proof -
  note fc = loop_body_files_cur [OF assms(1,2)]
  have ne: "\<And>i. i < n \<Longrightarrow> \<not> eofbit (files s ! i)"
    using assms(4) by (simp add: any_eof_iff)
  have le: "pending (files (loop_body n s) ! i) \<le> pending (files s ! i)" if "i < n" for i
    using fc ne [OF that] read_variant_pending_less [of "files s ! i" "cur s ! i"]
    by (auto simp: less_imp_le)
  have "\<exists>i<n. fst (check_match (cur s) n (log s)) \<or>
               op_lt (cur s ! i) (cur s ! max_variant (cur s) n)"
  proof (cases "fst (check_match (cur s) n (log s))")
    case True
    with assms(3) show ?thesis by (intro exI [of _ 0]) simp
  next
    case False
    with not_tie_someone_behind [OF assms(3,4,5)] show ?thesis by blast
  qed
  then obtain i where i: "i < n"
    and adv: "fst (check_match (cur s) n (log s)) \<or>
              op_lt (cur s ! i) (cur s ! max_variant (cur s) n)"
    by blast
  have lt: "pending (files (loop_body n s) ! i) < pending (files s ! i)"
    using fc i adv ne [OF i] read_variant_pending_less [of "files s ! i" "cur s ! i"]
    by auto
  show ?thesis
    unfolding total_pending_def
    by (rule sum_strict_mono_ex1) (use le lt i in auto)
qed

lemma loop_reaches_exit_or_tie:
  assumes "length (files s) = n" "length (cur s) = n" "1 \<le> n"
  shows "\<exists>j\<le>total_pending n s.
           (any_eof (files ((loop_body n ^^ j) s)) n \<or> tie_mismatch n ((loop_body n ^^ j) s)) \<and>
           (\<forall>i<j. \<not> any_eof (files ((loop_body n ^^ i) s)) n)"
  using assms
proof (induction "total_pending n s" arbitrary: s rule: less_induct)
  case less
  show ?case
  proof (cases "any_eof (files s) n \<or> tie_mismatch n s")
    case True
    then show ?thesis by (intro exI [of _ 0]) simp
  next
    case False
    then have ne: "\<not> any_eof (files s) n" and nt: "\<not> tie_mismatch n s" by simp_all
    let ?t = "loop_body n s"
    have dec: "total_pending n ?t < total_pending n s"
      using less.prems ne nt by (rule loop_body_decreases)
    have len: "length (files ?t) = n" "length (cur ?t) = n"
      using loop_body_files_cur [OF less.prems(1,2)] by simp_all
    from less.hyps [OF dec len less.prems(3)]
    obtain j where j: "j \<le> total_pending n ?t"
      and r: "any_eof (files ((loop_body n ^^ j) ?t)) n \<or> tie_mismatch n ((loop_body n ^^ j) ?t)"
      and b: "\<forall>i<j. \<not> any_eof (files ((loop_body n ^^ i) ?t)) n"
      by blast
    have b': "\<forall>i<Suc j. \<not> any_eof (files ((loop_body n ^^ i) s)) n"
    proof (intro allI impI)
      fix i assume "i < Suc j"
      show "\<not> any_eof (files ((loop_body n ^^ i) s)) n"
      proof (cases i)
        case 0
        with ne show ?thesis by simp
      next
        case (Suc i')
        with \<open>i < Suc j\<close> b show ?thesis by (simp add: funpow_swap1)
      qed
    qed
    show ?thesis
      using j dec r b' by (intro exI [of _ "Suc j"]) (simp add: funpow_swap1)
  qed
qed

section \<open>Evaluation on the examples\<close>

lemma upt_eval:
  "[0..<1] = [0]" "[0..<2] = [0, 1]" "[0..<3] = [0, 1, 2]"
  "[Suc 0..<1] = []" "[Suc 0..<2] = [1]" "[Suc 0..<3] = [1, 2]"
  by (simp_all add: eval_nat_numeral)

lemma check_match_flag_list:
  "fst (check_match li n lg) = list_all (\<lambda>i. alleles_eq (li ! i) (li ! 0)) [1..<n]"
  by (auto simp: check_match_flag list_all_iff)

lemmas parse_eval =
  read_variant_def getline_def newline_def extract_uint_def extract_string_def ws_def
  isspace_def isdigit_def dec_val_def digit_val_def

section \<open>The mismatch output and the standard output\<close>

lemma write_loop_mismatches:
  "mismatches_bim (snd (write_loop li k lg)) = mismatches_bim lg"
proof (induction k)
  case 0
  show ?case by (simp add: write_loop_def)
next
  case (Suc k)
  then show ?case
    by (cases "write_loop li k lg") (simp add: write_loop_Suc Let_def)
qed

lemma check_match_mismatches:
  "mismatches_bim (snd (check_match li n lg)) = mismatches_bim lg"
proof (cases "fst (check_match li n lg)")
  case True
  then show ?thesis
    using write_loop_mismatches [of li n lg]
    by (cases "write_loop li n lg") (simp add: check_match_matched_log)
next
  case False
  then show ?thesis by (simp add: check_match_mismatch_log)
qed

lemma funpow_mismatches:
  "mismatches_bim (log ((loop_body n ^^ j) s)) = mismatches_bim (log s)"
  by (induction j) (simp_all add: loop_body_log check_match_mismatches)

lemma open_names_lists_cout: "cout (snd (open_names_lists xs w)) = cout w"
  by (induction xs w rule: open_names_lists.induct) (simp_all add: Let_def)

lemma Log_open_cout: "cout (snd (Log_open n w)) = cout w"
  using open_names_lists_cout [of "[0..<n]" w]
  by (cases "open_names_lists [0..<n] w") (auto simp: Log_open_def Let_def split: bool.splits)

lemma Log_open_mismatches: "Log_open n w = (Some lg, w') \<Longrightarrow> mismatches_bim lg = []"
  by (auto simp: Log_open_def Let_def split: prod.splits bool.splits if_splits)

lemma loop_entry_log: "log (loop_entry n fl cs lg) = lg"
  by (simp add: loop_entry_def split: prod.splits)

section \<open>The claims\<close>

text \<open>
  Claim C1. In an iteration of the main loop whose frontier fails the match test, stream
  \<open>i\<close> is advanced by one call of \<open>read_variant\<close> exactly when its current record is
  strictly below the selected maximum \<open>cur ! max_variant cur n\<close> and its file has not
  reached its end; every other stream, so every stream at or past the maximum, keeps its
  stream position and its current record.
\<close>

theorem mismatch_advances_laggards:
  assumes "length (files s) = n" "length (cur s) = n"
    and "\<not> fst (check_match (cur s) n (log s))" and "i < n"
  shows "(files (loop_body n s) ! i, cur (loop_body n s) ! i) =
           (if op_lt (cur s ! i) (cur s ! max_variant (cur s) n) \<and> \<not> eofbit (files s ! i)
            then (fst (snd (read_variant (files s ! i) (cur s ! i))),
                  snd (snd (read_variant (files s ! i) (cur s ! i))))
            else (files s ! i, cur s ! i))"
  using loop_body_files_cur [OF assms(1,2)] assms(3,4) by simp

lemma ex_behind_mismatch: "\<not> fst (check_match (cur ex_behind) 2 (log ex_behind))"
  by (simp add: check_match_flag_list upt_eval ex_behind_def ex_rs1_def ex_rs2b_def
        alleles_eq_def op_eq_def)

lemma ex_behind_max: "max_variant (cur ex_behind) 2 = 1"
  by (simp add: max_variant_def upt_eval ex_behind_def ex_rs1_def ex_rs2b_def op_gt_def)

theorem mismatch_advances_laggards_witness:
  "length (files ex_behind) = 2 \<and> length (cur ex_behind) = 2 \<and>
   \<not> fst (check_match (cur ex_behind) 2 (log ex_behind)) \<and> (0 :: nat) < 2 \<and> (1 :: nat) < 2 \<and>
   (files (loop_body 2 ex_behind) ! 0, cur (loop_body 2 ex_behind) ! 0) =
     (\<lparr>rest = [], eofbit = False\<rparr>,
      \<lparr>chrom = 1, name = ''rs2'', position = 200, a1 = ''A'', a2 = ''T''\<rparr>) \<and>
   (files (loop_body 2 ex_behind) ! 1, cur (loop_body 2 ex_behind) ! 1) =
     (\<lparr>rest = [], eofbit = False\<rparr>, ex_rs2b)"
proof -
  have l: "length (files ex_behind) = 2" "length (cur ex_behind) = 2"
    by (simp_all add: ex_behind_def)
  have a: "(files (loop_body 2 ex_behind) ! 0, cur (loop_body 2 ex_behind) ! 0) =
     (\<lparr>rest = [], eofbit = False\<rparr>,
      \<lparr>chrom = 1, name = ''rs2'', position = 200, a1 = ''A'', a2 = ''T''\<rparr>)"
    using mismatch_advances_laggards [OF l ex_behind_mismatch, of 0]
    by (simp add: ex_behind_max) (simp add: ex_behind_def ex_rs1_def ex_rs2b_def op_lt_def parse_eval)
  have b: "(files (loop_body 2 ex_behind) ! 1, cur (loop_body 2 ex_behind) ! 1) =
     (\<lparr>rest = [], eofbit = False\<rparr>, ex_rs2b)"
    using mismatch_advances_laggards [OF l ex_behind_mismatch, of 1]
    by (simp add: ex_behind_max) (simp add: ex_behind_def ex_rs1_def ex_rs2b_def op_lt_def)
  show ?thesis
    using l ex_behind_mismatch a b by simp
qed

text \<open>
  Claim C5. On a frontier of \<open>n \<ge> 1\<close> records \<open>max\<close> returns an index \<open>m\<close> of the
  frontier such that no record is greater than record \<open>m\<close> and every record before
  \<open>m\<close> is strictly less: \<open>m\<close> is the smallest index that attains the greatest locus.
  The scan starts from index 0 and moves to a later index only when its record is
  strictly greater than the current candidate.
\<close>

theorem max_variant_first_greatest:
  assumes "1 \<le> n" "length li = n"
  shows "max_variant li n < n \<and>
         (\<forall>i<n. \<not> op_gt (li ! i) (li ! max_variant li n)) \<and>
         (\<forall>i<max_variant li n. op_lt (li ! i) (li ! max_variant li n)) \<and>
         max_variant li 1 = 0 \<and>
         (\<forall>k. 1 \<le> k \<longrightarrow>
            max_variant li (Suc k) =
              (if op_gt (li ! k) (li ! max_variant li k) then k else max_variant li k))"
  using max_variant_inv [OF assms(1), of li] max_variant_Suc [of _ li] max_variant_one [of li]
  by simp

theorem max_variant_first_greatest_witness:
  "(1 :: nat) \<le> 3 \<and> length ex_ties = 3 \<and> max_variant ex_ties 3 = 1 \<and>
   op_eq (ex_ties ! 1) (ex_ties ! 2) \<and> \<not> op_gt (ex_ties ! 2) (ex_ties ! 1) \<and>
   op_lt (ex_ties ! 0) (ex_ties ! 1)"
proof -
  have l: "length ex_ties = 3" by (simp add: ex_ties_def)
  have m: "max_variant ex_ties 3 = 1"
    by (simp add: max_variant_def upt_eval ex_ties_def op_gt_def)
  have "\<not> op_gt (ex_ties ! 2) (ex_ties ! 1) \<and> op_lt (ex_ties ! 0) (ex_ties ! 1)"
    using max_variant_first_greatest [of 3 ex_ties] l by (simp add: m)
  then show ?thesis
    using l m by (simp add: ex_ties_def op_eq_def)
qed

text \<open>
  Claim C6. The match test returns true exactly when every record at an index
  \<open>i \<ge> 1\<close> satisfies \<open>alleles_eq\<close> against record 0. Records other than the
  reference are not compared with each other: there is a frontier of three records that
  passes the test although records 1 and 2 fail \<open>alleles_eq\<close> with each other.
\<close>

theorem check_match_reference_only:
  "(fst (check_match li n lg) \<longleftrightarrow> (\<forall>i. 1 \<le> i \<and> i < n \<longrightarrow> alleles_eq (li ! i) (li ! 0))) \<and>
   (\<exists>li' lg'. fst (check_match li' 3 lg') \<and> \<not> alleles_eq (li' ! 1) (li' ! 2)
               \<and> \<not> alleles_eq (li' ! 2) (li' ! 1))"
proof
  show "fst (check_match li n lg) \<longleftrightarrow> (\<forall>i. 1 \<le> i \<and> i < n \<longrightarrow> alleles_eq (li ! i) (li ! 0))"
    by (rule check_match_flag)
  have "fst (check_match ex_three 3 ex_log)"
    by (simp add: check_match_flag_list upt_eval ex_three_def alleles_eq_def op_eq_def)
  moreover have "\<not> alleles_eq (ex_three ! 1) (ex_three ! 2)" "\<not> alleles_eq (ex_three ! 2) (ex_three ! 1)"
    by (simp_all add: ex_three_def alleles_eq_def op_eq_def)
  ultimately show "\<exists>li' lg'. fst (check_match li' 3 lg') \<and> \<not> alleles_eq (li' ! 1) (li' ! 2)
               \<and> \<not> alleles_eq (li' ! 2) (li' ! 1)"
    by blast
qed

theorem check_match_reference_only_witness:
  "fst (check_match ex_three 3 ex_log) \<and>
   alleles_eq (ex_three ! 1) (ex_three ! 0) \<and> alleles_eq (ex_three ! 2) (ex_three ! 0) \<and>
   \<not> alleles_eq (ex_three ! 1) (ex_three ! 2) \<and>
   \<not> fst (check_match ex_clash 2 ex_log) \<and> \<not> alleles_eq (ex_clash ! 1) (ex_clash ! 0)"
proof -
  have a: "alleles_eq (ex_three ! 1) (ex_three ! 0)" "alleles_eq (ex_three ! 2) (ex_three ! 0)"
    "\<not> alleles_eq (ex_three ! 1) (ex_three ! 2)" "\<not> alleles_eq (ex_clash ! 1) (ex_clash ! 0)"
    by (simp_all add: ex_three_def ex_clash_def alleles_eq_def op_eq_def)
  have "\<forall>i. 1 \<le> i \<and> i < (3::nat) \<longrightarrow> alleles_eq (ex_three ! i) (ex_three ! 0)"
  proof (intro allI impI)
    fix i :: nat assume "1 \<le> i \<and> i < 3"
    then have "i = 1 \<or> i = 2" by auto
    with a show "alleles_eq (ex_three ! i) (ex_three ! 0)" by auto
  qed
  then have b: "fst (check_match ex_three 3 ex_log)"
    using check_match_reference_only [of ex_three 3 ex_log] by blast
  have c: "\<not> fst (check_match ex_clash 2 ex_log)"
    using check_match_reference_only [of ex_clash 2 ex_log] a(4)
    by (metis one_le_numeral one_less_numeral_iff semiring_norm(76) order_refl)
  show ?thesis using a b c by simp
qed

text \<open>
  Claim C7. On a full match of a frontier of \<open>n\<close> records, the name of record \<open>i\<close>
  and a newline are appended to the name list of stream \<open>i\<close>, for every \<open>i < n\<close>, and
  exactly one line is appended to the matched-records output: that of the first record
  in index order with no sentinel allele, or of record 0 when every record has one. The
  line has the six tab-separated fields of the input, with \<open>0\<close> in the distance field.
  The mismatch output is left as it was.
\<close>

theorem match_writes:
  assumes "length li = n" "length (names_lists lg) = n" "fst (check_match li n lg)"
  shows "length (names_lists (snd (check_match li n lg))) = n \<and>
         (\<forall>i<n. names_lists (snd (check_match li n lg)) ! i =
                  names_lists lg ! i @ name (li ! i) @ [newline]) \<and>
         (\<exists>rep. rep = (case find (\<lambda>v. a1 v \<noteq> ''0'' \<and> a2 v \<noteq> ''0'') li of
                         Some v \<Rightarrow> v | None \<Rightarrow> li ! 0) \<and>
            matches_bim (snd (check_match li n lg)) =
              matches_bim lg @ dec (uint (chrom rep)) @ [tab] @ name rep @ [tab] @ ''0'' @ [tab]
                @ dec (uint (position rep)) @ [tab] @ a1 rep @ [tab] @ a2 rep @ [newline]) \<and>
         mismatches_bim (snd (check_match li n lg)) = mismatches_bim lg"
proof -
  obtain w lg' where p: "write_loop li n lg = (w, lg')"
    by (cases "write_loop li n lg")
  have inv: "w = (find no_sentinel li \<noteq> None)"
    "length (names_lists lg') = length (names_lists lg)"
    "\<And>i. names_lists lg' ! i =
            (if i < n then names_lists lg ! i @ name (li ! i) @ [newline] else names_lists lg ! i)"
    "matches_bim lg' =
       (case find no_sentinel li of
          None \<Rightarrow> matches_bim lg | Some v \<Rightarrow> write_bim_line v (matches_bim lg))"
    using write_loop_inv [of n li lg] assms(1,2) p by simp_all
  have ns: "no_sentinel = (\<lambda>v. a1 v \<noteq> ''0'' \<and> a2 v \<noteq> ''0'')"
    by (rule ext) (simp add: no_sentinel_def)
  have r: "snd (check_match li n lg) =
             (if \<not> w then lg'\<lparr>matches_bim := write_bim_line (li ! 0) (matches_bim lg')\<rparr>
              else lg')"
    using assms(3) p by (simp add: check_match_matched_log)
  have m: "matches_bim (snd (check_match li n lg)) =
             write_bim_line (case find no_sentinel li of Some v \<Rightarrow> v | None \<Rightarrow> li ! 0)
               (matches_bim lg)"
    using inv(1,4) by (auto simp: r split: option.splits)
  show ?thesis
    using inv(2,3) assms(2) m check_match_mismatches [of li n lg]
    by (auto simp: r ns [symmetric] write_bim_line_def)
qed

theorem match_writes_witness:
  "length ex_sentinel = 2 \<and> length (names_lists ex_log) = 2 \<and>
   fst (check_match ex_sentinel 2 ex_log) \<and>
   names_lists (snd (check_match ex_sentinel 2 ex_log)) = [''rs1'' @ [newline], ''rs1b'' @ [newline]] \<and>
   matches_bim (snd (check_match ex_sentinel 2 ex_log)) =
     ''1'' @ [tab] @ ''rs1b'' @ [tab] @ ''0'' @ [tab] @ ''100'' @ [tab] @ ''A'' @ [tab] @ ''G''
       @ [newline]"
proof -
  have l: "length ex_sentinel = 2" "length (names_lists ex_log) = 2"
    by (simp_all add: ex_sentinel_def ex_log_def)
  have f: "fst (check_match ex_sentinel 2 ex_log)"
    by (simp add: check_match_flag_list upt_eval ex_sentinel_def alleles_eq_def op_eq_def)
  note t = match_writes [OF l f]
  have n0: "names_lists (snd (check_match ex_sentinel 2 ex_log)) ! 0 = ''rs1'' @ [newline]"
    and n1: "names_lists (snd (check_match ex_sentinel 2 ex_log)) ! 1 = ''rs1b'' @ [newline]"
    using t by (simp_all add: ex_sentinel_def ex_log_def)
  have len: "length (names_lists (snd (check_match ex_sentinel 2 ex_log))) = 2"
    using t by simp
  have nl: "names_lists (snd (check_match ex_sentinel 2 ex_log)) =
              [''rs1'' @ [newline], ''rs1b'' @ [newline]]"
    by (rule nth_equalityI) (use len n0 n1 in \<open>auto simp: less_Suc_eq numeral_2_eq_2\<close>)
  have mb: "matches_bim (snd (check_match ex_sentinel 2 ex_log)) =
     ''1'' @ [tab] @ ''rs1b'' @ [tab] @ ''0'' @ [tab] @ ''100'' @ [tab] @ ''A'' @ [tab] @ ''G''
       @ [newline]"
    using t by (simp add: ex_sentinel_def ex_log_def dec.simps)
  show ?thesis using l f nl mb by simp
qed

text \<open>
  Claim C8. On a frontier that fails the match test the log is unchanged: no name is
  appended to any name list and nothing is written to either shared output. The mismatch
  output is never written: the match test, any number of loop iterations and a whole run
  leave it as it was, and a run of \<open>main\<close> that leaves the loop ends with it empty.
\<close>

theorem mismatch_writes_nothing:
  "(\<not> fst (check_match li n lg) \<longrightarrow> snd (check_match li n lg) = lg) \<and>
   (\<not> fst (check_match (cur s) n (log s)) \<longrightarrow> log (loop_body n s) = log s) \<and>
   mismatches_bim (snd (check_match li n lg)) = mismatches_bim lg \<and>
   mismatches_bim (log ((loop_body n ^^ j) s)) = mismatches_bim (log s) \<and>
   (main_loop n s = Some s' \<longrightarrow> mismatches_bim (log s') = mismatches_bim (log s)) \<and>
   (main args uninit w = Some (code, w', Some s') \<longrightarrow> mismatches_bim (log s') = [])"
proof (intro conjI impI)
  show "snd (check_match li n lg) = lg" if "\<not> fst (check_match li n lg)"
    using that by (rule check_match_mismatch_log)
  show "log (loop_body n s) = log s" if "\<not> fst (check_match (cur s) n (log s))"
    using that by (rule loop_body_log_mismatch)
  show "mismatches_bim (snd (check_match li n lg)) = mismatches_bim lg"
    by (rule check_match_mismatches)
  show "mismatches_bim (log ((loop_body n ^^ j) s)) = mismatches_bim (log s)"
    by (rule funpow_mismatches)
  show "mismatches_bim (log s') = mismatches_bim (log s)" if "main_loop n s = Some s'"
    using main_loop_Some [OF that] funpow_mismatches by auto
  show "mismatches_bim (log s') = []" if m: "main args uninit w = Some (code, w', Some s')"
  proof -
    from m obtain lg w1 fl where lo: "Log_open (length args) w = (Some lg, w1)"
      and ml: "main_loop (length args)
                 (loop_entry (length args) fl (default_cur uninit (length args)) lg) = Some s'"
      by (auto simp: main_def Let_def print_usage_def
            split: prod.splits option.splits if_splits)
    from main_loop_Some [OF ml] funpow_mismatches
    have "mismatches_bim (log s') = mismatches_bim lg"
      by (auto simp: loop_entry_log)
    with Log_open_mismatches [OF lo] show ?thesis by simp
  qed
qed

theorem mismatch_writes_nothing_witness:
  "\<not> fst (check_match ex_clash 2 ex_log) \<and> snd (check_match ex_clash 2 ex_log) = ex_log \<and>
   check_match ex_clash 2 ex_log = (False, ex_log)"
proof -
  have f: "\<not> fst (check_match ex_clash 2 ex_log)"
    by (simp add: check_match_flag_list upt_eval ex_clash_def alleles_eq_def op_eq_def)
  with mismatch_writes_nothing [of ex_clash 2 ex_log]
  have "snd (check_match ex_clash 2 ex_log) = ex_log" by blast
  with f show ?thesis by (simp add: prod_eq_iff)
qed

text \<open>
  Claim C10. When \<open>std::getline\<close> delivers an empty line, \<open>read_variant\<close> returns false
  and the record passed to it is unchanged. A stream with no characters left, or with
  \<open>eofbit\<close> set, delivers an empty line and has \<open>eofbit\<close> set afterwards; the cursor of
  such a stream keeps its record through both reading loops.
\<close>

theorem read_variant_end_of_stream:
  "(snd (getline file) = [] \<longrightarrow> read_variant file v = (False, fst (getline file), v)) \<and>
   (rest file = [] \<or> eofbit file \<longrightarrow> snd (getline file) = [] \<and> eofbit (fst (getline file))) \<and>
   (length fl = n \<and> length cs = n \<and> i < n \<and>
      (eofbit (fl ! i) \<or> snd (getline (fl ! i)) = []) \<longrightarrow>
        snd (read_variants fl cs n) ! i = cs ! i \<and>
        snd (read_variants_until_max fl cs m n) ! i = cs ! i)"
proof (intro conjI impI)
  show "read_variant file v = (False, fst (getline file), v)" if "snd (getline file) = []"
    using that by (rule read_variant_empty_line)
  show "snd (getline file) = []" "eofbit (fst (getline file))" if "rest file = [] \<or> eofbit file"
    using that by (auto simp: getline_def)
  assume a: "length fl = n \<and> length cs = n \<and> i < n \<and>
      (eofbit (fl ! i) \<or> snd (getline (fl ! i)) = [])"
  then have u: "\<not> eofbit (fl ! i) \<Longrightarrow> snd (snd (read_variant (fl ! i) (cs ! i))) = cs ! i"
    by (auto simp: read_variant_empty_line)
  show "snd (read_variants fl cs n) ! i = cs ! i"
    using read_variants_nth [of n fl cs] a u by (auto split: prod.splits)
  show "snd (read_variants_until_max fl cs m n) ! i = cs ! i"
    using read_variants_until_max_nth [of n fl cs m] a u by (auto split: prod.splits)
qed

theorem read_variant_end_of_stream_witness:
  "snd (getline \<lparr>rest = [], eofbit = False\<rparr>) = [] \<and>
   read_variant \<lparr>rest = [], eofbit = False\<rparr> ex_rs1 = (False, \<lparr>rest = [], eofbit = True\<rparr>, ex_rs1) \<and>
   snd (getline \<lparr>rest = [newline] @ ''1 rs2 0 200 A T'' @ [newline], eofbit = False\<rparr>) = [] \<and>
   read_variant \<lparr>rest = [newline] @ ''1 rs2 0 200 A T'' @ [newline], eofbit = False\<rparr> ex_rs1 =
     (False, \<lparr>rest = ''1 rs2 0 200 A T'' @ [newline], eofbit = False\<rparr>, ex_rs1)"
proof -
  have a: "snd (getline \<lparr>rest = [], eofbit = False\<rparr>) = []"
    and b: "snd (getline \<lparr>rest = [newline] @ ''1 rs2 0 200 A T'' @ [newline], eofbit = False\<rparr>) = []"
    by (simp_all add: getline_def)
  from a read_variant_end_of_stream [of "\<lparr>rest = [], eofbit = False\<rparr>" ex_rs1]
  have c: "read_variant \<lparr>rest = [], eofbit = False\<rparr> ex_rs1 =
             (False, \<lparr>rest = [], eofbit = True\<rparr>, ex_rs1)"
    by (simp add: getline_def)
  from b read_variant_end_of_stream
    [of "\<lparr>rest = [newline] @ ''1 rs2 0 200 A T'' @ [newline], eofbit = False\<rparr>" ex_rs1]
  have d: "read_variant \<lparr>rest = [newline] @ ''1 rs2 0 200 A T'' @ [newline], eofbit = False\<rparr> ex_rs1 =
     (False, \<lparr>rest = ''1 rs2 0 200 A T'' @ [newline], eofbit = False\<rparr>, ex_rs1)"
    by (simp add: getline_def)
  show ?thesis using a b c d by simp
qed

lemma funpow_lengths:
  assumes "length (files s) = n" "length (cur s) = n"
  shows "length (files ((loop_body n ^^ j) s)) = n \<and> length (cur ((loop_body n ^^ j) s)) = n"
proof (induction j)
  case 0
  show ?case using assms by simp
next
  case (Suc j)
  then show ?case
    using loop_body_files_cur [of "(loop_body n ^^ j) s" n] by simp
qed

lemma loop_entry_lengths:
  assumes "length fl = n" "length cs = n"
  shows "length (files (loop_entry n fl cs lg)) = n \<and> length (cur (loop_entry n fl cs lg)) = n"
  using read_variants_nth [of n fl cs] assms
  by (cases "read_variants fl cs n") (simp add: loop_entry_def)

lemma loop_entry_pending:
  assumes "length fl = n" "length cs = n" "\<forall>i<n. \<not> eofbit (fl ! i)"
  shows "total_pending n (loop_entry n fl cs lg) \<le> (\<Sum>i<n. line_count (rest (fl ! i)))"
proof -
  have "pending (files (loop_entry n fl cs lg) ! i) \<le> line_count (rest (fl ! i))" if "i < n" for i
  proof -
    have "files (loop_entry n fl cs lg) ! i = fst (snd (read_variant (fl ! i) (cs ! i)))"
      using read_variants_nth [of n fl cs] assms that
      by (cases "read_variants fl cs n") (simp add: loop_entry_def)
    then show ?thesis
      using assms(3) that by (simp add: read_variant_file pending_getline_first)
  qed
  then show ?thesis
    unfolding total_pending_def by (intro sum_mono) simp
qed

text \<open>
  Take \<open>n \<ge> 1\<close> freshly opened streams. After at most as many iterations as the files
  have lines in total, the main loop either finds a stream at its end, and this is where
  the loop returns, or it stands on the frontier of the edge case (a failed match test
  with all loci equal), and from there the loop never returns. Before that iteration no
  stream is at its end.
\<close>

lemma loop_exits_or_ties_within_lines:
  assumes "length fl = n" "length cs = n" "1 \<le> n" "\<forall>i<n. \<not> eofbit (fl ! i)"
  shows "\<exists>j\<le>(\<Sum>i<n. line_count (rest (fl ! i))).
           (\<forall>i<j. \<not> any_eof (files ((loop_body n ^^ i) (loop_entry n fl cs lg))) n) \<and>
           (any_eof (files ((loop_body n ^^ j) (loop_entry n fl cs lg))) n \<and>
              main_loop n (loop_entry n fl cs lg) = Some ((loop_body n ^^ j) (loop_entry n fl cs lg))
            \<or> tie_mismatch n ((loop_body n ^^ j) (loop_entry n fl cs lg)) \<and>
              main_loop n (loop_entry n fl cs lg) = None)"
proof -
  let ?s = "loop_entry n fl cs lg"
  note len = loop_entry_lengths [OF assms(1,2), of lg]
  from loop_reaches_exit_or_tie [of ?s n] len assms(3)
  obtain j where j: "j \<le> total_pending n ?s"
    and r: "any_eof (files ((loop_body n ^^ j) ?s)) n \<or> tie_mismatch n ((loop_body n ^^ j) ?s)"
    and b: "\<forall>i<j. \<not> any_eof (files ((loop_body n ^^ i) ?s)) n"
    by blast
  have j': "j \<le> (\<Sum>i<n. line_count (rest (fl ! i)))"
    using j loop_entry_pending [OF assms(1,2,4), of lg] by simp
  have ml: "main_loop n ?s = main_loop n ((loop_body n ^^ j) ?s)"
    using b by (intro main_loop_funpow) simp
  show ?thesis
  proof (cases "any_eof (files ((loop_body n ^^ j) ?s)) n")
    case True
    then have "main_loop n ?s = Some ((loop_body n ^^ j) ?s)"
      using ml by (simp add: main_loop_exit)
    with True j' b show ?thesis by blast
  next
    case False
    with r have t: "tie_mismatch n ((loop_body n ^^ j) ?s)" by simp
    have "loop_body n ((loop_body n ^^ j) ?s) = (loop_body n ^^ j) ?s"
      using funpow_lengths [of ?s n j] len t by (intro tie_mismatch_fixed) simp_all
    then have "main_loop n ((loop_body n ^^ j) ?s) = None"
      using False by (intro main_loop_fixed_point) simp_all
    with ml t j' b show ?thesis by auto
  qed
qed

lemmas run_eval =
  loop_body_def check_match_def max_variant_def read_variants_until_max_def read_variants_def
  any_eof_def alleles_eq_def op_eq_def op_lt_def op_gt_def write_bim_line_def upt_eval

lemma ex_lag_entry:
  "loop_entry 2 ex_lag_files (default_cur ex_uninit 2) ex_log =
     \<lparr>files = [\<lparr>rest = ''1 rs2 0 200 A T'' @ [newline], eofbit = False\<rparr>,
               \<lparr>rest = [], eofbit = False\<rparr>],
      cur = [ex_rs1, ex_rs2b], log = ex_log\<rparr>"
  by (simp add: loop_entry_def read_variants_def upt_eval default_cur_def ex_uninit_def
        ex_lag_files_def ex_rs1_def ex_rs2b_def parse_eval)

lemma ex_lag_step1:
  "loop_body 2 \<lparr>files = [\<lparr>rest = ''1 rs2 0 200 A T'' @ [newline], eofbit = False\<rparr>,
               \<lparr>rest = [], eofbit = False\<rparr>],
      cur = [ex_rs1, ex_rs2b], log = ex_log\<rparr> =
   \<lparr>files = [\<lparr>rest = [], eofbit = False\<rparr>, \<lparr>rest = [], eofbit = False\<rparr>],
    cur = [\<lparr>chrom = 1, name = ''rs2'', position = 200, a1 = ''A'', a2 = ''T''\<rparr>, ex_rs2b],
    log = ex_log\<rparr>"
  by (simp add: run_eval ex_rs1_def ex_rs2b_def parse_eval)

lemma ex_lag_step2:
  "loop_body 2 \<lparr>files = [\<lparr>rest = [], eofbit = False\<rparr>, \<lparr>rest = [], eofbit = False\<rparr>],
    cur = [\<lparr>chrom = 1, name = ''rs2'', position = 200, a1 = ''A'', a2 = ''T''\<rparr>, ex_rs2b],
    log = ex_log\<rparr> =
   \<lparr>files = [\<lparr>rest = [], eofbit = True\<rparr>, \<lparr>rest = [], eofbit = True\<rparr>],
    cur = [\<lparr>chrom = 1, name = ''rs2'', position = 200, a1 = ''A'', a2 = ''T''\<rparr>, ex_rs2b],
    log = \<lparr>n_files = 2, names_lists = [''rs2'' @ [newline], ''rs2b'' @ [newline]],
           matches_bim = ''1'' @ [tab] @ ''rs2'' @ [tab] @ ''0'' @ [tab] @ ''200'' @ [tab] @ ''A''
                          @ [tab] @ ''T'' @ [newline],
           mismatches_bim = []\<rparr>\<rparr>"
  by (simp add: run_eval ex_rs2b_def ex_log_def dec.simps read_variant_def getline_def)

lemma ex_lag_sum: "(\<Sum>i<2. line_count (rest (ex_lag_files ! i))) = 3"
  by (simp add: numeral_2_eq_2 ex_lag_files_def line_count.simps newline_def)

lemma ex_lag_run:
  "main_loop 2 (loop_entry 2 ex_lag_files (default_cur ex_uninit 2) ex_log) =
     Some \<lparr>files = [\<lparr>rest = [], eofbit = True\<rparr>, \<lparr>rest = [], eofbit = True\<rparr>],
           cur = [\<lparr>chrom = 1, name = ''rs2'', position = 200, a1 = ''A'', a2 = ''T''\<rparr>, ex_rs2b],
           log = \<lparr>n_files = 2, names_lists = [''rs2'' @ [newline], ''rs2b'' @ [newline]],
                  matches_bim = ''1'' @ [tab] @ ''rs2'' @ [tab] @ ''0'' @ [tab] @ ''200'' @ [tab]
                                 @ ''A'' @ [tab] @ ''T'' @ [newline],
                  mismatches_bim = []\<rparr>\<rparr>"
  apply (simp only: ex_lag_entry)
  apply (subst main_loop_step, simp add: any_eof_def upt_eval)
  apply (simp only: ex_lag_step1)
  apply (subst main_loop_step, simp add: any_eof_def upt_eval)
  apply (simp only: ex_lag_step2)
  apply (subst main_loop_exit, simp add: any_eof_def upt_eval)
  apply (rule refl)
  done

text \<open>
  Claim C3. The claim asks that a frontier which fails the match test while all its
  records share one locus makes the driver advance every stream and record a mismatch.
  The loop of the source has no such rule: on that frontier no record is strictly below
  the maximum, so an iteration leaves every stream, every current record and the log as
  they were, and the loop never returns.
\<close>

theorem tie_mismatch_loops_forever:
  assumes "length (files s) = n" "length (cur s) = n" "tie_mismatch n s"
  shows "loop_body n s = s \<and> files (loop_body n s) = files s \<and> cur (loop_body n s) = cur s \<and>
         log (loop_body n s) = log s \<and> main_loop n s = None"
proof -
  have f: "loop_body n s = s"
    using assms by (rule tie_mismatch_fixed)
  moreover have "\<not> any_eof (files s) n"
    using assms(3) by (simp add: tie_mismatch_def)
  then have "main_loop n s = None"
    using f by (rule main_loop_fixed_point)
  ultimately show ?thesis by simp
qed

lemma ex_clash_entry:
  "loop_entry 2 ex_clash_files (default_cur ex_uninit 2) ex_log =
     \<lparr>files = [\<lparr>rest = ''1 rs2 0 200 A T'' @ [newline], eofbit = False\<rparr>,
               \<lparr>rest = ''1 rs2b 0 200 A T'' @ [newline], eofbit = False\<rparr>],
      cur = ex_clash, log = ex_log\<rparr>"
  by (simp add: loop_entry_def read_variants_def upt_eval default_cur_def ex_uninit_def
        ex_clash_files_def ex_clash_def parse_eval)

lemma ex_clash_tie:
  "tie_mismatch 2 \<lparr>files = [\<lparr>rest = ''1 rs2 0 200 A T'' @ [newline], eofbit = False\<rparr>,
               \<lparr>rest = ''1 rs2b 0 200 A T'' @ [newline], eofbit = False\<rparr>],
      cur = ex_clash, log = ex_log\<rparr>"
  by (simp add: tie_mismatch_def any_eof_def check_match_flag_list upt_eval ex_clash_def
        alleles_eq_def op_eq_def)

lemma ex_clash_open:
  "Log_open 2 ex_clash_world =
     (Some ex_log,
      ex_clash_world\<lparr>disk := (disk ex_clash_world)
         (''bij_names_1.txt'' \<mapsto> [], ''bij_names_2.txt'' \<mapsto> [], ''bij_matches.bim'' \<mapsto> [],
          ''bij_mismatches.bim'' \<mapsto> [])\<rparr>)"
  by (simp add: Log_open_def upt_eval ex_clash_world_def ex_log_def dec.simps numeral_2_eq_2)

theorem tie_mismatch_loops_forever_witness:
  "length (files (loop_entry 2 ex_clash_files (default_cur ex_uninit 2) ex_log)) = 2 \<and>
   length (cur (loop_entry 2 ex_clash_files (default_cur ex_uninit 2) ex_log)) = 2 \<and>
   tie_mismatch 2 (loop_entry 2 ex_clash_files (default_cur ex_uninit 2) ex_log) \<and>
   cur (loop_entry 2 ex_clash_files (default_cur ex_uninit 2) ex_log) = ex_clash \<and>
   loop_body 2 (loop_entry 2 ex_clash_files (default_cur ex_uninit 2) ex_log) =
     loop_entry 2 ex_clash_files (default_cur ex_uninit 2) ex_log \<and>
   main_loop 2 (loop_entry 2 ex_clash_files (default_cur ex_uninit 2) ex_log) = None \<and>
   main [''a.bim'', ''b.bim''] ex_uninit ex_clash_world = None"
proof -
  let ?s = "loop_entry 2 ex_clash_files (default_cur ex_uninit 2) ex_log"
  let ?w = "ex_clash_world\<lparr>disk := (disk ex_clash_world)
         (''bij_names_1.txt'' \<mapsto> [], ''bij_names_2.txt'' \<mapsto> [], ''bij_matches.bim'' \<mapsto> [],
          ''bij_mismatches.bim'' \<mapsto> [])\<rparr>"
  have l: "length (files ?s) = 2" "length (cur ?s) = 2"
    by (simp_all add: ex_clash_entry ex_clash_def)
  have t: "tie_mismatch 2 ?s"
    using ex_clash_tie by (simp add: ex_clash_entry)
  have r: "loop_body 2 ?s = ?s" "main_loop 2 ?s = None"
    using tie_mismatch_loops_forever [OF l t] by simp_all
  have o: "open_files [''a.bim'', ''b.bim''] ?w =
           (Some ex_clash_files,
            ?w\<lparr>cout := ''Opening: a.bim'' @ [newline] @ ''Opening: b.bim'' @ [newline]\<rparr>)"
    by (simp add: ex_clash_world_def ex_clash_files_def)
  have len: "length [''a.bim'', ''b.bim''] = 2"
    by simp
  have "main [''a.bim'', ''b.bim''] ex_uninit ex_clash_world = None"
    by (simp only: main_def len Let_def) (simp add: ex_clash_open o r(2) del: open_files.simps)
  with l t r show ?thesis
    by (simp add: ex_clash_entry)
qed

lemma record_count_le_line_count: "record_count s \<le> line_count s"
proof (induction s rule: line_count.induct)
  case (1 s)
  show ?case
    using 1 by (subst record_count.simps, subst line_count.simps) auto
qed

lemma ex_clash_records: "(\<Sum>i<2. record_count (rest (ex_clash_files ! i))) = 4"
  by (simp add: numeral_2_eq_2 ex_clash_files_def record_count.simps newline_def)

text \<open>
  Claim C4. The claim asks that the main loop terminates within as many iterations as
  the files hold records. The loop of the source does not once it stands on the frontier
  of the edge case (a failed match test with all loci equal): after any number \<open>j\<close> of
  further iterations the state is the same and no stream is at its end, so the number of
  iterations exceeds every bound and the loop never returns.
\<close>

theorem main_loop_never_exits_on_tie:
  assumes "length (files s) = n" "length (cur s) = n" "tie_mismatch n s"
  shows "(loop_body n ^^ j) s = s \<and> \<not> any_eof (files ((loop_body n ^^ j) s)) n \<and>
         main_loop n s = None"
proof -
  have f: "loop_body n s = s"
    using assms by (rule tie_mismatch_fixed)
  have p: "(loop_body n ^^ j) s = s"
    by (induction j) (simp_all add: f)
  have e: "\<not> any_eof (files s) n"
    using assms(3) by (simp add: tie_mismatch_def)
  have "main_loop n s = None"
    using e f by (rule main_loop_fixed_point)
  with p e show ?thesis by simp
qed

theorem main_loop_never_exits_on_tie_witness:
  "length (files (loop_entry 2 ex_clash_files (default_cur ex_uninit 2) ex_log)) = 2 \<and>
   length (cur (loop_entry 2 ex_clash_files (default_cur ex_uninit 2) ex_log)) = 2 \<and>
   tie_mismatch 2 (loop_entry 2 ex_clash_files (default_cur ex_uninit 2) ex_log) \<and>
   (\<Sum>i<2. record_count (rest (ex_clash_files ! i))) = 4 \<and>
   \<not> any_eof (files ((loop_body 2 ^^ 5)
                (loop_entry 2 ex_clash_files (default_cur ex_uninit 2) ex_log))) 2 \<and>
   main_loop 2 (loop_entry 2 ex_clash_files (default_cur ex_uninit 2) ex_log) = None"
proof -
  let ?s = "loop_entry 2 ex_clash_files (default_cur ex_uninit 2) ex_log"
  have l: "length (files ?s) = 2" "length (cur ?s) = 2"
    by (simp_all add: ex_clash_entry ex_clash_def)
  have t: "tie_mismatch 2 ?s"
    using ex_clash_tie by (simp add: ex_clash_entry)
  have "\<not> any_eof (files ((loop_body 2 ^^ 5) ?s)) 2 \<and> main_loop 2 ?s = None"
    using main_loop_never_exits_on_tie [OF l t, of 5] by blast
  with l t ex_clash_records show ?thesis
    by simp
qed

text \<open>
  Claim C9, as stated, fails where an output file cannot be opened: \<open>main\<close> opens the
  output files before it counts its arguments, so with one input file and a directory
  that cannot be written the exit status is 1 and nothing is printed on the standard
  output.
\<close>

theorem usage_not_printed_counterexample:
  "length [''a.bim''] < 2 \<and>
   main [''a.bim''] ex_uninit ex_read_only =
     Some (1, ex_read_only\<lparr>cerr := ''Could not write to bij_names_1.txt'' @ [newline]\<rparr>, None) \<and>
   cout (ex_read_only\<lparr>cerr := ''Could not write to bij_names_1.txt'' @ [newline]\<rparr>) = [] \<and>
   usage_text \<noteq> []"
  by (simp add: main_def Log_open_def upt_eval ex_read_only_def dec.simps usage_text_def)

text \<open>
  Claim C9, amended. With fewer than 2 input files \<open>main\<close> exits with status 1 without
  opening an input file or reading a record: the loop is not entered, and the
  environment is the one \<open>Log::open\<close> left, but for the standard output. The usage text
  is printed there exactly when every output file could be opened.
\<close>

theorem usage_error_exit:
  assumes "length args < 2"
  shows "\<exists>w'. main args uninit w = Some (1, w', None) \<and>
           cerr w' = cerr (snd (Log_open (length args) w)) \<and>
           disk w' = disk (snd (Log_open (length args) w)) \<and>
           cout w' = (if fst (Log_open (length args) w) = None then cout w
                      else cout w @ usage_text)"
proof (cases "Log_open (length args) w")
  case (Pair r w1)
  have c: "cout w1 = cout w"
    using Log_open_cout [of "length args" w] Pair by simp
  show ?thesis
    using assms c by (cases r) (simp_all add: main_def Pair print_usage_def)
qed

theorem usage_error_exit_witness:
  "length [''a.bim''] < 2 \<and>
   (\<exists>w'. main [''a.bim''] ex_uninit ex_writable = Some (1, w', None) \<and> cout w' = usage_text \<and>
          disk w' ''bij_matches.bim'' = Some [])"
proof -
  have o: "Log_open (Suc 0) ex_writable =
     (Some \<lparr>n_files = Suc 0, names_lists = [[]], matches_bim = [], mismatches_bim = []\<rparr>,
      ex_writable\<lparr>disk := (disk ex_writable)
         (''bij_names_1.txt'' \<mapsto> [], ''bij_matches.bim'' \<mapsto> [],
          ''bij_mismatches.bim'' \<mapsto> [])\<rparr>)"
    by (simp add: Log_open_def ex_writable_def dec.simps)
  from usage_error_exit [of "[''a.bim'']" ex_uninit ex_writable]
  obtain w' where m: "main [''a.bim''] ex_uninit ex_writable = Some (1, w', None)"
    and d: "disk w' = disk (snd (Log_open (Suc 0) ex_writable))"
    and c: "cout w' = (if fst (Log_open (Suc 0) ex_writable) = None then cout ex_writable
                       else cout ex_writable @ usage_text)"
    by auto
  have "cout w' = usage_text"
    using c by (simp add: o) (simp add: ex_writable_def)
  moreover have "disk w' ''bij_matches.bim'' = Some []"
    using d by (simp add: o)
  ultimately show ?thesis
    using m by simp
qed

end
